theory Spec2Isabelle
  imports Main "HOL-Library.AList"
begin

section \<open>Key-value observing: the \<open>KVO\<close> mixin of \<open>src/kvo.js\<close>\<close>

text \<open>
  The mixin stores all of its bookkeeping on the participating objects themselves. An
  attribute that takes part in a binding holds a descriptor object
  \<^verbatim>\<open>{__myIndex, __observerIndexes, __sharedObject}\<close>; the descriptors of one group
  share one object \<^verbatim>\<open>{__value, __observers}\<close>. The shared object is mutated through
  every descriptor that refers to it, so it lives in an explicit store and descriptors
  hold its address. A descriptor is created by an object literal inside \<open>bindTo\<close>, is
  stored in exactly one attribute and is only ever reached as \<^verbatim>\<open>obj[key]\<close>, so it is
  kept in the attribute itself.
\<close>

subsection \<open>Values, objects and the store\<close>

type_synonym addr = nat

text \<open>
  JavaScript values. Numbers are integers here (no \<open>NaN\<close>, no rounding). \<open>VFun\<close> is a
  function value, named by a number. \<open>VRef\<close> is a reference to an ordinary object of the
  store. \<open>VDesc\<close> is a descriptor made by \<open>bindTo\<close>; its third field is \<open>None\<close> for
  \<^verbatim>\<open>__sharedObject: null\<close>.
\<close>

datatype val =
    VUndef
  | VNull
  | VBool bool
  | VNum int
  | VStr string
  | VFun nat
  | VRef addr
  | VDesc nat "nat list" "addr option"

text \<open>An object is a bag of named attributes; the order of the list has no meaning.\<close>

type_synonym obj = "(string \<times> val) list"

text \<open>
  The shared object: \<^verbatim>\<open>__value\<close> and \<^verbatim>\<open>__observers\<close>. An observer is
  \<^verbatim>\<open>{obj, key}\<close> or \<^verbatim>\<open>null\<close> (an unbound observer).
\<close>

record cell =
  cvalue :: val
  observers :: "(addr \<times> string) option list"

text \<open>
  The store: the objects (an address is an index of the list; an address beyond the list
  denotes no object) and the shared objects.
\<close>

record heap =
  objs :: "obj list"
  cells :: "cell list"

text \<open>
  What the source throws. The three \<^verbatim>\<open>throw\<close> statements carry a message built from the
  key; \<open>TypeError\<close> is what the engine raises on a property access on \<^verbatim>\<open>undefined\<close> or
  \<^verbatim>\<open>null\<close> and on a call of a non-function; \<open>RangeError\<close> is the exhausted call stack.
  \<open>Unmodelled\<close> marks the paths through an ordinary object that only resembles a
  descriptor, beyond the point up to which this theory follows them.
\<close>

datatype error =
    MissingAttribute string
  | AlreadySourced string
  | UndefinedAttribute string
  | TypeError
  | RangeError
  | Unmodelled

text \<open>One invocation of a callback: the receiver, the method name and the arguments.\<close>

datatype call = Call addr string "val list"

text \<open>
  A \<^verbatim>\<open>void\<close> method of the mixin returns what it threw (if anything), the store as it is
  when the method returns or throws, and the callbacks it invoked, in order. Callbacks are
  opaque: they are recorded, and they do not write to the store.
\<close>

type_synonym result = "error option \<times> heap \<times> call list"

subsection \<open>Property access\<close>

definition obj_at :: "heap \<Rightarrow> addr \<Rightarrow> obj" where
  "obj_at h a = (if a < length (objs h) then objs h ! a else [])"

text \<open>\<^verbatim>\<open>key in obj\<close>\<close>

definition has_attr :: "heap \<Rightarrow> addr \<Rightarrow> string \<Rightarrow> bool" where
  "has_attr h a k = (map_of (obj_at h a) k \<noteq> None)"

text \<open>\<^verbatim>\<open>obj[key]\<close>: \<^verbatim>\<open>undefined\<close> when the attribute is absent.\<close>

definition attr :: "heap \<Rightarrow> addr \<Rightarrow> string \<Rightarrow> val" where
  "attr h a k = (case map_of (obj_at h a) k of None \<Rightarrow> VUndef | Some v \<Rightarrow> v)"

text \<open>\<^verbatim>\<open>obj[key] = v\<close>\<close>

definition set_attr :: "heap \<Rightarrow> addr \<Rightarrow> string \<Rightarrow> val \<Rightarrow> heap" where
  "set_attr h a k v = h\<lparr>objs := (objs h)[a := AList.update k v (obj_at h a)]\<rparr>"

definition cell_at :: "heap \<Rightarrow> addr \<Rightarrow> cell option" where
  "cell_at h c = (if c < length (cells h) then Some (cells h ! c) else None)"

definition set_cell :: "heap \<Rightarrow> addr \<Rightarrow> cell \<Rightarrow> heap" where
  "set_cell h c cl = h\<lparr>cells := (cells h)[c := cl]\<rparr>"

text \<open>The falsy values, as far as \<open>val\<close> has them.\<close>

fun truthy :: "val \<Rightarrow> bool" where
  "truthy VUndef = False"
| "truthy VNull = False"
| "truthy (VBool b) = b"
| "truthy (VNum n) = (n \<noteq> 0)"
| "truthy (VStr s) = (s \<noteq> [])"
| "truthy _ = True"

text \<open>
  \<^verbatim>\<open>w.__value\<close> for a value \<open>w\<close> that is not a shared object of the store: a
  \<open>TypeError\<close> on \<^verbatim>\<open>undefined\<close> and \<^verbatim>\<open>null\<close>, the attribute of an ordinary object,
  \<^verbatim>\<open>undefined\<close> on everything else.
\<close>

fun value_of :: "heap \<Rightarrow> val \<Rightarrow> error + val" where
  "value_of h VUndef = Inl TypeError"
| "value_of h VNull = Inl TypeError"
| "value_of h (VRef b) = Inr (attr h b ''__value'')"
| "value_of h _ = Inr VUndef"

text \<open>
  The keys that \<^verbatim>\<open>for (var i in array)\<close> hands to the loop body are strings: the decimal
  numerals of the indices.
\<close>

fun dec :: "nat \<Rightarrow> string" where
  "dec n = (if n < 10 then [char_of (48 + n)] else dec (n div 10) @ [char_of (48 + n mod 10)])"

declare dec.simps [simp del]

definition for_in_key :: "nat \<Rightarrow> val" where
  "for_in_key i = VStr (dec i)"

subsection \<open>\<open>_isPropertyBound\<close>\<close>

text \<open>
  \<^verbatim>\<open>this[key] !== null && typeof this[key] === 'object' && '__myIndex' in this[key]\<close>.
  A descriptor has the property by construction; an ordinary object has it when it is
  among its attributes.
\<close>

definition isPropertyBound :: "heap \<Rightarrow> addr \<Rightarrow> string \<Rightarrow> bool" where
  "isPropertyBound h this key =
     (case attr h this key of
        VDesc i os s \<Rightarrow> True
      | VRef a \<Rightarrow> has_attr h a ''__myIndex''
      | _ \<Rightarrow> False)"

subsection \<open>\<open>get\<close>\<close>

text \<open>
  \<^verbatim>\<open>this._isPropertyBound(key) ? this[key].__sharedObject.__value : this[key]\<close>.
  The function reads the store and returns a value; it has no store to give back.
\<close>

definition get :: "heap \<Rightarrow> addr \<Rightarrow> string \<Rightarrow> error + val" where
  "get h this key =
     (if isPropertyBound h this key then
        (case attr h this key of
           VDesc i os (Some c) \<Rightarrow>
             (case cell_at h c of Some cl \<Rightarrow> Inr (cvalue cl) | None \<Rightarrow> Inl Unmodelled)
         | VDesc i os None \<Rightarrow> Inl TypeError
         | VRef a \<Rightarrow> value_of h (attr h a ''__sharedObject'')
         | _ \<Rightarrow> Inl Unmodelled)
      else Inr (attr h this key))"

subsection \<open>\<open>set\<close>\<close>

text \<open>
  The notification loop of \<open>set\<close> on a bound attribute: for every observer that is not
  \<^verbatim>\<open>null\<close> and whose \<^verbatim>\<open>obj[key + 'Changed']\<close> is truthy, call it with the value. Calling
  something that is not a function throws and ends the loop.
\<close>

fun notify :: "heap \<Rightarrow> val \<Rightarrow> (addr \<times> string) option list \<Rightarrow> error option \<times> call list" where
  "notify h v [] = (None, [])"
| "notify h v (None # es) = notify h v es"
| "notify h v (Some (ob, k) # es) =
     (if \<not> truthy (attr h ob (k @ ''Changed'')) then notify h v es
      else (case attr h ob (k @ ''Changed'') of
              VFun f \<Rightarrow> (case notify h v es of (e, cs) \<Rightarrow> (e, Call ob (k @ ''Changed'') [v] # cs))
            | _ \<Rightarrow> (Some TypeError, [])))"

definition set_kvo :: "heap \<Rightarrow> addr \<Rightarrow> string \<Rightarrow> val \<Rightarrow> bool \<Rightarrow> result" where
  "set_kvo h this key v forceCallback =
     (if \<not> has_attr h this key then (Some (UndefinedAttribute key), h, [])
      else if isPropertyBound h this key then
        (case attr h this key of
           VDesc i os (Some c) \<Rightarrow>
             (case cell_at h c of
                None \<Rightarrow> (Some Unmodelled, h, [])
              | Some cl \<Rightarrow>
                  if cvalue cl = v \<and> \<not> forceCallback then (None, h, [])
                  else
                    let h' = set_cell h c (cl\<lparr>cvalue := v\<rparr>) in
                    (case notify h' v (observers cl) of (e, cs) \<Rightarrow> (e, h', cs)))
         | VDesc i os None \<Rightarrow> (Some TypeError, h, [])
         | VRef a \<Rightarrow>
             (case value_of h (attr h a ''__sharedObject'') of
                Inl e \<Rightarrow> (Some e, h, [])
              | Inr cur \<Rightarrow>
                  if cur = v \<and> \<not> forceCallback then (None, h, [])
                  else (Some Unmodelled, h, []))
         | _ \<Rightarrow> (Some Unmodelled, h, []))
      else if attr h this key = v then (None, h, [])
      else
        let h' = set_attr h this key v in
        if has_attr h' this (key @ ''Changed'') then
          (case attr h' this (key @ ''Changed'') of
             VFun f \<Rightarrow> (None, h', [Call this (key @ ''Changed'') []])
           | _ \<Rightarrow> (Some TypeError, h', []))
        else (None, h', []))"

subsection \<open>\<open>_updateObserverIndexes\<close>\<close>

text \<open>
  The method calls itself on the observers found through \<^verbatim>\<open>__observerIndexes\<close>; on a
  cyclic structure it would never return, and the engine ends it with a \<open>RangeError\<close>
  when the call stack is exhausted. The first argument is the number of nested calls the
  stack still has room for.

  \<open>update_loop\<close> is the \<^verbatim>\<open>for (var i in this[key].__observerIndexes)\<close> loop; its last
  argument is the list of array indices still to visit. \<open>visit\<close> is the test for
  \<^verbatim>\<open>null\<close> with the recursive call on the observer found. The body reads \<^verbatim>\<open>this[key]\<close>
  anew at every use, as the source does. An index beyond the \<^verbatim>\<open>__observers\<close> array
  reads \<^verbatim>\<open>undefined\<close>, which is \<^verbatim>\<open>!== null\<close>, so \<^verbatim>\<open>.obj\<close> on it throws.
\<close>

text \<open>
  Line 64, \<^verbatim>\<open>this[key].__myIndex += offsetIncrease\<close>, with the array that line 66
  then enumerates. On a descriptor the result is the store and the length of
  \<^verbatim>\<open>__observerIndexes\<close>. On \<^verbatim>\<open>undefined\<close> and \<^verbatim>\<open>null\<close> the access throws; on a
  primitive or a function the assignment is lost and the loop has nothing to enumerate,
  so the method returns.
\<close>

definition bump_self :: "heap \<Rightarrow> addr \<Rightarrow> string \<Rightarrow> nat \<Rightarrow> (error option \<times> heap) + (heap \<times> nat)" where
  "bump_self h this key offsetIncrease =
     (case attr h this key of
        VDesc i os s \<Rightarrow>
          Inr (set_attr h this key (VDesc (i + offsetIncrease) os s), length os)
      | VUndef \<Rightarrow> Inl (Some TypeError, h)
      | VNull \<Rightarrow> Inl (Some TypeError, h)
      | VRef a \<Rightarrow> Inl (Some Unmodelled, h)
      | _ \<Rightarrow> Inl (None, h))"

text \<open>
  Line 69, the operand
  \<^verbatim>\<open>this[key].__sharedObject.__observers[this[key].__observerIndexes[i]]\<close>.
\<close>

definition observer_at :: "heap \<Rightarrow> addr \<Rightarrow> string \<Rightarrow> nat \<Rightarrow> error + (addr \<times> string) option" where
  "observer_at h this key j =
     (case attr h this key of
        VDesc i os s \<Rightarrow>
          (if length os \<le> j then Inl TypeError
           else case s of
             None \<Rightarrow> Inl TypeError
           | Some c \<Rightarrow>
               (case cell_at h c of
                  None \<Rightarrow> Inl Unmodelled
                | Some cl \<Rightarrow>
                    if length (observers cl) \<le> os ! j then Inl TypeError
                    else Inr (observers cl ! (os ! j))))
      | _ \<Rightarrow> Inl Unmodelled)"

text \<open>Line 76, \<^verbatim>\<open>this[key].__observerIndexes[i] += offsetIncrease\<close>.\<close>

definition bump_index :: "heap \<Rightarrow> addr \<Rightarrow> string \<Rightarrow> nat \<Rightarrow> nat \<Rightarrow> error + heap" where
  "bump_index h this key j offsetIncrease =
     (case attr h this key of
        VDesc i os s \<Rightarrow>
          Inr (set_attr h this key (VDesc i (os[j := os ! j + offsetIncrease]) s))
      | _ \<Rightarrow> Inl Unmodelled)"

function (sequential) updateObserverIndexes :: "nat \<Rightarrow> heap \<Rightarrow> addr \<Rightarrow> string \<Rightarrow> nat \<Rightarrow> error option \<times> heap"
  and visit :: "nat \<Rightarrow> heap \<Rightarrow> (addr \<times> string) option \<Rightarrow> nat \<Rightarrow> error option \<times> heap"
  and update_loop :: "nat \<Rightarrow> heap \<Rightarrow> addr \<Rightarrow> string \<Rightarrow> nat \<Rightarrow> nat list \<Rightarrow> error option \<times> heap"
where
  "updateObserverIndexes 0 h this key offsetIncrease = (Some RangeError, h)"
| "updateObserverIndexes (Suc d) h this key offsetIncrease =
     (case bump_self h this key offsetIncrease of
        Inl r \<Rightarrow> r
      | Inr (h1, len) \<Rightarrow> update_loop d h1 this key offsetIncrease [0..<len])"
| "visit d h None offsetIncrease = (None, h)"
| "visit d h (Some (ob, k)) offsetIncrease = updateObserverIndexes d h ob k offsetIncrease"
| "update_loop d h this key offsetIncrease [] = (None, h)"
| "update_loop d h this key offsetIncrease (j # js) =
     (case observer_at h this key j of
        Inl e \<Rightarrow> (Some e, h)
      | Inr ent \<Rightarrow>
          (case visit d h ent offsetIncrease of
             (Some e, h1) \<Rightarrow> (Some e, h1)
           | (None, h1) \<Rightarrow>
               (case bump_index h1 this key j offsetIncrease of
                  Inl e \<Rightarrow> (Some e, h1)
                | Inr h2 \<Rightarrow> update_loop d h2 this key offsetIncrease js)))"
  by pat_completeness auto
termination
  by (relation "measures
       [\<lambda>x. case x of
          Inl (d, h, this, key, off) \<Rightarrow> 3 * d
        | Inr (Inl (d, h, e, off)) \<Rightarrow> 3 * d + 1
        | Inr (Inr (d, h, this, key, off, js)) \<Rightarrow> 3 * d + 2,
        \<lambda>x. case x of
          Inl (d, h, this, key, off) \<Rightarrow> 0
        | Inr (Inl (d, h, e, off)) \<Rightarrow> 0
        | Inr (Inr (d, h, this, key, off, js)) \<Rightarrow> length js]") auto

subsection \<open>\<open>bindTo\<close>\<close>

text \<open>
  Lines 102 to 109: the target's plain attribute becomes a descriptor with a fresh shared
  object that holds the old value and the target itself as the only observer.
\<close>

definition promote :: "heap \<Rightarrow> addr \<Rightarrow> string \<Rightarrow> heap" where
  "promote h target tk =
     set_attr
       (h\<lparr>cells := cells h @ [\<lparr>cvalue = attr h target tk, observers = [Some (target, tk)]\<rparr>]\<rparr>)
       target tk (VDesc 0 [] (Some (length (cells h))))"

text \<open>
  Line 160, \<^verbatim>\<open>observers[i].obj[observers[i].key].__sharedObject = sharedObject\<close>: a
  \<open>TypeError\<close> when the attribute is \<^verbatim>\<open>undefined\<close> or \<^verbatim>\<open>null\<close>, no effect on a
  primitive or a function (the file is not in strict mode).
\<close>

definition point_to :: "heap \<Rightarrow> addr \<Rightarrow> string \<Rightarrow> addr \<Rightarrow> error + heap" where
  "point_to h ob k c =
     (case attr h ob k of
        VDesc i os s \<Rightarrow> Inr (set_attr h ob k (VDesc i os (Some c)))
      | VUndef \<Rightarrow> Inl TypeError
      | VNull \<Rightarrow> Inl TypeError
      | VRef a \<Rightarrow> Inl Unmodelled
      | _ \<Rightarrow> Inr h)"

text \<open>
  The loop of lines 152 to 172 over the merged \<^verbatim>\<open>__observers\<close> array, given as the list
  of its positions with their entries. \<open>c\<close> is \<^verbatim>\<open>target[targetKey].__sharedObject\<close> and
  \<open>cv\<close> its \<^verbatim>\<open>__value\<close>: the loop stores \<open>c\<close> and nothing else in descriptors and does
  not write to shared objects, so both are the same at every iteration. \<open>ov\<close> is
  \<^verbatim>\<open>observersValue\<close> and \<open>n\<close> is \<^verbatim>\<open>targetObserversLength\<close>.

  The loop variable is a key of \<^verbatim>\<open>for ... in\<close>, a string: \<^verbatim>\<open>i < targetObserversLength\<close>
  converts it to a number, \<^verbatim>\<open>i === targetObserversLength\<close> compares a string with a number.
  \<open>call_changed\<close> is lines 168 to 171: the callback is looked up with \<^verbatim>\<open>in\<close> and called
  without arguments.
\<close>

definition call_changed :: "heap \<Rightarrow> addr \<Rightarrow> string \<Rightarrow> error + call list" where
  "call_changed h ob k =
     (if has_attr h ob (k @ ''Changed'') then
        (case attr h ob (k @ ''Changed'') of
           VFun f \<Rightarrow> Inr [Call ob (k @ ''Changed'') []]
         | _ \<Rightarrow> Inl TypeError)
      else Inr [])"

fun bind_loop ::
  "heap \<Rightarrow> addr \<Rightarrow> val \<Rightarrow> val \<Rightarrow> nat \<Rightarrow> bool \<Rightarrow> (nat \<times> (addr \<times> string) option) list \<Rightarrow> result"
where
  "bind_loop h c cv ov n noNotify [] = (None, h, [])"
| "bind_loop h c cv ov n noNotify ((i, None) # es) = bind_loop h c cv ov n noNotify es"
| "bind_loop h c cv ov n noNotify ((i, Some (ob, k)) # es) =
     (if i < n then bind_loop h c cv ov n noNotify es
      else case point_to h ob k c of
        Inl e \<Rightarrow> (Some e, h, [])
      | Inr h1 \<Rightarrow>
          if cv = ov \<or> (for_in_key i = VNum (int n) \<and> noNotify) then
            bind_loop h1 c cv ov n noNotify es
          else
            (case call_changed h1 ob k of
               Inl e \<Rightarrow> (Some e, h1, [])
             | Inr cs1 \<Rightarrow>
                 (case bind_loop h1 c cv ov n noNotify es of
                    (e, h2, cs) \<Rightarrow> (e, h2, cs1 @ cs))))"

definition run_bind_loop :: "heap \<Rightarrow> addr \<Rightarrow> val \<Rightarrow> nat \<Rightarrow> bool \<Rightarrow> result" where
  "run_bind_loop h c ov n noNotify =
     (case cell_at h c of
        None \<Rightarrow> (Some Unmodelled, h, [])
      | Some cl \<Rightarrow>
          bind_loop h c (cvalue cl) ov n noNotify
            (zip [0..<length (observers cl)] (observers cl)))"

text \<open>
  Lines 119 to 150, after \<^verbatim>\<open>targetObserversLength\<close> (\<open>n\<close>) has been pushed on the
  target's \<^verbatim>\<open>__observerIndexes\<close>. \<open>c\<close> is the target's shared object. The result is the
  store and \<^verbatim>\<open>observersValue\<close>, or the error with the store as it was left.
\<close>

definition join_source ::
  "nat \<Rightarrow> heap \<Rightarrow> addr \<Rightarrow> string \<Rightarrow> addr \<Rightarrow> nat \<Rightarrow> (error \<times> heap) + (heap \<times> val)"
where
  "join_source depth h this key c n =
     (if isPropertyBound h this key then
        (case attr h this key of
           VDesc i os s \<Rightarrow>
             if i \<noteq> 0 then Inl (AlreadySourced key, h)
             else
               (case updateObserverIndexes depth h this key n of
                  (Some e, h1) \<Rightarrow> Inl (e, h1)
                | (None, h1) \<Rightarrow>
                    (case s of
                       None \<Rightarrow> Inl (TypeError, h1)
                     | Some sc \<Rightarrow>
                         (case (cell_at h1 c, cell_at h1 sc) of
                            (Some tcl, Some scl) \<Rightarrow>
                              let h2 = set_cell h1 c
                                         (tcl\<lparr>observers := observers tcl @ observers scl\<rparr>)
                              in Inr (h2, cvalue scl)
                          | _ \<Rightarrow> Inl (Unmodelled, h1))))
         | VRef a \<Rightarrow>
             if attr h a ''__myIndex'' \<noteq> VNum 0 then Inl (AlreadySourced key, h)
             else Inl (Unmodelled, h)
         | _ \<Rightarrow> Inl (Unmodelled, h))
      else
        (let h1 = set_attr h this key (VDesc n [] None) in
         case cell_at h1 c of
           None \<Rightarrow> Inl (Unmodelled, h1)
         | Some tcl \<Rightarrow>
             Inr (set_cell h1 c (tcl\<lparr>observers := observers tcl @ [Some (this, key)]\<rparr>),
                  attr h this key)))"

text \<open>
  \<open>bindTo\<close>. \<open>targetKey\<close> is \<open>None\<close> when the argument is left out;
  \<^verbatim>\<open>targetKey || key\<close> (\<open>default_key\<close>) also replaces the empty string. The first argument is the room on
  the call stack for \<open>_updateObserverIndexes\<close>.
\<close>

definition default_key :: "string option \<Rightarrow> string \<Rightarrow> string" where
  "default_key targetKey key =
     (case targetKey of None \<Rightarrow> key | Some s \<Rightarrow> if s \<noteq> [] then s else key)"

definition bindTo ::
  "nat \<Rightarrow> heap \<Rightarrow> addr \<Rightarrow> string \<Rightarrow> addr \<Rightarrow> string option \<Rightarrow> bool \<Rightarrow> result"
where
  "bindTo depth h this key target targetKey noNotify =
     (let tk = default_key targetKey key in
      if \<not> has_attr h target tk then (Some (MissingAttribute tk), h, [])
      else
        let h1 = (if \<not> isPropertyBound h target tk then promote h target tk else h) in
        case attr h1 target tk of
          VDesc i os (Some c) \<Rightarrow>
            (case cell_at h1 c of
               None \<Rightarrow> (Some Unmodelled, h1, [])
             | Some cl \<Rightarrow>
                 let n = length (observers cl);
                     h2 = set_attr h1 target tk (VDesc i (os @ [n]) (Some c))
                 in (case join_source depth h2 this key c n of
                       Inl (e, h3) \<Rightarrow> (Some e, h3, [])
                     | Inr (h3, ov) \<Rightarrow> run_bind_loop h3 c ov n noNotify))
        | VDesc i os None \<Rightarrow> (Some TypeError, h1, [])
        | VRef a \<Rightarrow>
            (case attr h1 a ''__sharedObject'' of
               VUndef \<Rightarrow> (Some TypeError, h1, [])
             | VNull \<Rightarrow> (Some TypeError, h1, [])
             | _ \<Rightarrow> (Some Unmodelled, h1, []))
        | _ \<Rightarrow> (Some Unmodelled, h1, []))"

subsection \<open>Example stores\<close>

text \<open>
  Five objects with an attribute \<open>name\<close>; the second and the fourth define
  \<open>nameChanged\<close>.
\<close>

definition ex_plain :: heap where
  "ex_plain =
     \<lparr>objs =
        [[(''name'', VStr ''Bob'')],
         [(''name'', VStr ''x''), (''nameChanged'', VFun 1)],
         [(''name'', VStr ''q'')],
         [(''name'', VStr ''z''), (''nameChanged'', VFun 2)],
         [(''name'', VStr ''r'')]],
      cells = []\<rparr>"

text \<open>The same after \<^verbatim>\<open>o1.bindTo('name', o0)\<close>.\<close>

definition ex_bound :: heap where
  "ex_bound =
     \<lparr>objs =
        [[(''name'', VDesc 0 [1] (Some 0))],
         [(''name'', VDesc 1 [] (Some 0)), (''nameChanged'', VFun 1)],
         [(''name'', VStr ''q'')],
         [(''name'', VStr ''z''), (''nameChanged'', VFun 2)],
         [(''name'', VStr ''r'')]],
      cells = [\<lparr>cvalue = VStr ''Bob'', observers = [Some (0, ''name''), Some (1, ''name'')]\<rparr>]\<rparr>"

text \<open>
  An object whose attribute \<open>k\<close> holds an ordinary object \<^verbatim>\<open>{__myIndex: 7}\<close>, and a
  second object with a plain attribute \<open>k\<close>.
\<close>

definition ex_lookalike :: heap where
  "ex_lookalike =
     \<lparr>objs = [[(''k'', VRef 1)], [(''__myIndex'', VNum 7)], [(''k'', VNum 5)]], cells = []\<rparr>"

text \<open>The store \<open>ex_bound\<close> after the failed \<^verbatim>\<open>o1.bindTo('name', o2)\<close>.\<close>

definition ex_failed :: heap where
  "ex_failed =
     \<lparr>objs =
        [[(''name'', VDesc 0 [1] (Some 0))],
         [(''name'', VDesc 1 [] (Some 0)), (''nameChanged'', VFun 1)],
         [(''name'', VDesc 0 [1] (Some 1))],
         [(''name'', VStr ''z''), (''nameChanged'', VFun 2)],
         [(''name'', VStr ''r'')]],
      cells =
        [\<lparr>cvalue = VStr ''Bob'', observers = [Some (0, ''name''), Some (1, ''name'')]\<rparr>,
         \<lparr>cvalue = VStr ''q'', observers = [Some (2, ''name'')]\<rparr>]\<rparr>"

subsection \<open>Vocabulary of the properties\<close>



text \<open>The observers of a table that are not \<^verbatim>\<open>null\<close>, in order.\<close>

fun live_entries :: "(addr \<times> string) option list \<Rightarrow> (addr \<times> string) list" where
  "live_entries [] = []"
| "live_entries (None # es) = live_entries es"
| "live_entries (Some e # es) = e # live_entries es"



text \<open>
  A value without the two index fields of a descriptor. Two stores have the
  \<open>same_wiring\<close> when they have the same shared objects and the same attributes up to
  \<^verbatim>\<open>__myIndex\<close> and \<^verbatim>\<open>__observerIndexes\<close>.
\<close>

fun erase :: "val \<Rightarrow> val" where
  "erase (VDesc i os s) = VDesc 0 [] s"
| "erase v = v"

definition same_wiring :: "heap \<Rightarrow> heap \<Rightarrow> bool" where
  "same_wiring h h' =
     (cells h' = cells h \<and> length (objs h') = length (objs h) \<and>
      (\<forall>a k. has_attr h' a k = has_attr h a k) \<and>
      (\<forall>a k. erase (attr h' a k) = erase (attr h a k)))"

text \<open>All attributes of all objects of the store.\<close>

definition slots :: "heap \<Rightarrow> (addr \<times> string) list" where
  "slots h = concat (map (\<lambda>a. map (Pair a) (map fst (obj_at h a))) [0..<length (objs h)])"

text \<open>The attribute \<open>p\<close> holds a descriptor whose \<^verbatim>\<open>__sharedObject\<close> is \<open>c\<close>.\<close>

definition points_at :: "heap \<Rightarrow> addr \<Rightarrow> addr \<times> string \<Rightarrow> bool" where
  "points_at h c p = (case attr h (fst p) (snd p) of VDesc i os s \<Rightarrow> s = Some c | _ \<Rightarrow> False)"

text \<open>
  The invariant of the data model: every descriptor refers to a shared object of the store
  that lists the descriptor's attribute among its observers, and every observer of that
  shared object which is not \<^verbatim>\<open>null\<close> holds a descriptor referring to it.
\<close>

definition slot_wired :: "heap \<Rightarrow> addr \<times> string \<Rightarrow> bool" where
  "slot_wired h p =
     (case attr h (fst p) (snd p) of
        VDesc i os s \<Rightarrow>
          (case s of
             None \<Rightarrow> False
           | Some c \<Rightarrow>
               (case cell_at h c of
                  None \<Rightarrow> False
                | Some cl \<Rightarrow>
                    p \<in> set (live_entries (observers cl)) \<and>
                    list_all (points_at h c) (live_entries (observers cl))))
      | _ \<Rightarrow> True)"

definition wired :: "heap \<Rightarrow> bool" where
  "wired h = list_all (slot_wired h) (slots h)"

text \<open>
  The effect of line 160 on a value, and on a store for the attributes in \<open>S\<close>.
\<close>

fun repoint :: "addr \<Rightarrow> val \<Rightarrow> val" where
  "repoint c (VDesc i os s) = VDesc i os (Some c)"
| "repoint c v = v"

definition repointed :: "(addr \<times> string) set \<Rightarrow> addr \<Rightarrow> heap \<Rightarrow> heap \<Rightarrow> bool" where
  "repointed S c h h' =
     (cells h' = cells h \<and> length (objs h') = length (objs h) \<and>
      (\<forall>a k. has_attr h' a k = has_attr h a k) \<and>
      (\<forall>a k. attr h' a k = (if (a, k) \<in> S then repoint c (attr h a k) else attr h a k)))"

text \<open>The values on which line 160 does not throw and that the theory follows.\<close>

fun pointable :: "val \<Rightarrow> bool" where
  "pointable VUndef = False"
| "pointable VNull = False"
| "pointable (VRef a) = False"
| "pointable v = True"

text \<open>
  Two groups of two: the second object is bound to the first, the fourth to the third.
  \<open>ex_merged\<close> is the store after \<^verbatim>\<open>o2.bindTo('name', o0)\<close>.
\<close>

definition ex_groups :: heap where
  "ex_groups =
     \<lparr>objs =
        [[(''name'', VDesc 0 [1] (Some 0)), (''nameChanged'', VFun 0)],
         [(''name'', VDesc 1 [] (Some 0))],
         [(''name'', VDesc 0 [1] (Some 1))],
         [(''name'', VDesc 1 [] (Some 1)), (''nameChanged'', VFun 3)]],
      cells =
        [\<lparr>cvalue = VStr ''p'', observers = [Some (0, ''name''), Some (1, ''name'')]\<rparr>,
         \<lparr>cvalue = VStr ''x'', observers = [Some (2, ''name''), Some (3, ''name'')]\<rparr>]\<rparr>"

definition ex_merged :: heap where
  "ex_merged =
     \<lparr>objs =
        [[(''name'', VDesc 0 [1, 2] (Some 0)), (''nameChanged'', VFun 0)],
         [(''name'', VDesc 1 [] (Some 0))],
         [(''name'', VDesc 2 [3] (Some 0))],
         [(''name'', VDesc 3 [] (Some 0)), (''nameChanged'', VFun 3)]],
      cells =
        [\<lparr>cvalue = VStr ''p'',
           observers = [Some (0, ''name''), Some (1, ''name''), Some (2, ''name''),
                        Some (3, ''name'')]\<rparr>,
         \<lparr>cvalue = VStr ''x'', observers = [Some (2, ''name''), Some (3, ''name'')]\<rparr>]\<rparr>"

text \<open>
  The order in which \<open>_updateObserverIndexes\<close>, started at position \<open>p\<close> of a table
  \<open>T\<close>, visits the positions, when \<open>ch v\<close> is the \<^verbatim>\<open>__observerIndexes\<close> of the observer at
  position \<open>v\<close> and indices ascend from an observer to the observers chained off it.
\<close>

function walk :: "'a option list \<Rightarrow> (nat \<Rightarrow> nat list) \<Rightarrow> nat \<Rightarrow> nat list" where
  "walk T ch p =
     p # concat (map (walk T ch) (filter (\<lambda>x. p < x \<and> x < length T \<and> T ! x \<noteq> None) (ch p)))"
  by pat_completeness auto

termination
  by (relation "measure (\<lambda>(T, ch, p). length T - p)") auto

declare walk.simps [simp del]

text \<open>
  The descriptor at position \<open>v\<close> after the update; \<open>fresh\<close>: the positions \<open>V\<close> still hold
  the descriptors from before the update; \<open>shifted\<close>: the store \<open>g'\<close> is \<open>g\<close> with exactly
  the descriptors at the positions \<open>V\<close> updated; \<open>in_range\<close>: all indices they hold are
  positions of the table; \<open>ascending\<close>: they are larger than the position that holds them.
\<close>

definition shift_desc :: "nat \<Rightarrow> (nat \<Rightarrow> nat list) \<Rightarrow> addr \<Rightarrow> nat \<Rightarrow> val" where
  "shift_desc off ch sc v = VDesc (v + off) (map (\<lambda>x. x + off) (ch v)) (Some sc)"

definition fresh ::
  "heap \<Rightarrow> (addr \<times> string) option list \<Rightarrow> (nat \<Rightarrow> nat list) \<Rightarrow> addr \<Rightarrow> nat list \<Rightarrow> bool" where
  "fresh g T ch sc V =
     (\<forall>v \<in> set V. \<exists>a k. T ! v = Some (a, k) \<and> attr g a k = VDesc v (ch v) (Some sc))"

definition shifted ::
  "(addr \<times> string) option list \<Rightarrow> (nat \<Rightarrow> nat list) \<Rightarrow> addr \<Rightarrow> nat \<Rightarrow> nat list \<Rightarrow>
   heap \<Rightarrow> heap \<Rightarrow> bool" where
  "shifted T ch sc off V g g' =
     ((\<forall>v \<in> set V. \<forall>a k. T ! v = Some (a, k) \<longrightarrow> attr g' a k = shift_desc off ch sc v) \<and>
      (\<forall>a k. (\<forall>v \<in> set V. T ! v \<noteq> Some (a, k)) \<longrightarrow> attr g' a k = attr g a k) \<and>
      cells g' = cells g)"

definition in_range :: "'a list \<Rightarrow> (nat \<Rightarrow> nat list) \<Rightarrow> nat list \<Rightarrow> bool" where
  "in_range T ch V = (\<forall>v \<in> set V. \<forall>y \<in> set (ch v). y < length T)"

definition ascending :: "(nat \<Rightarrow> nat list) \<Rightarrow> nat list \<Rightarrow> bool" where
  "ascending ch V = (\<forall>v \<in> set V. \<forall>y \<in> set (ch v). v < y)"

text \<open>
  Four objects with an attribute \<open>name\<close>; the second has \<^verbatim>\<open>nameChanged: 0\<close>, which
  \<open>set\<close> takes for no callback. \<open>ex_chain1\<close> is the store after
  \<^verbatim>\<open>o2.bindTo('name', o1)\<close>, \<open>ex_aborted\<close> after \<^verbatim>\<open>o1.bindTo('name', o0)\<close> has thrown
  at line 170, and \<open>ex_stranded\<close> after \<^verbatim>\<open>o3.bindTo('name', o0)\<close>.
\<close>

definition ex_chain0 :: heap where
  "ex_chain0 =
     \<lparr>objs =
        [[(''name'', VStr ''P'')],
         [(''name'', VStr ''x''), (''nameChanged'', VNum 0)],
         [(''name'', VStr ''y'')],
         [(''name'', VStr ''z'')]],
      cells = []\<rparr>"

definition ex_chain1 :: heap where
  "ex_chain1 =
     \<lparr>objs =
        [[(''name'', VStr ''P'')],
         [(''name'', VDesc 0 [1] (Some 0)), (''nameChanged'', VNum 0)],
         [(''name'', VDesc 1 [] (Some 0))],
         [(''name'', VStr ''z'')]],
      cells = [\<lparr>cvalue = VStr ''x'', observers = [Some (1, ''name''), Some (2, ''name'')]\<rparr>]\<rparr>"

definition ex_aborted :: heap where
  "ex_aborted =
     \<lparr>objs =
        [[(''name'', VDesc 0 [1] (Some 1))],
         [(''name'', VDesc 1 [2] (Some 1)), (''nameChanged'', VNum 0)],
         [(''name'', VDesc 2 [] (Some 0))],
         [(''name'', VStr ''z'')]],
      cells =
        [\<lparr>cvalue = VStr ''x'', observers = [Some (1, ''name''), Some (2, ''name'')]\<rparr>,
         \<lparr>cvalue = VStr ''P'',
            observers = [Some (0, ''name''), Some (1, ''name''), Some (2, ''name'')]\<rparr>]\<rparr>"

definition ex_stranded :: heap where
  "ex_stranded =
     \<lparr>objs =
        [[(''name'', VDesc 0 [1, 3] (Some 1))],
         [(''name'', VDesc 1 [2] (Some 1)), (''nameChanged'', VNum 0)],
         [(''name'', VDesc 2 [] (Some 0))],
         [(''name'', VDesc 3 [] (Some 1))]],
      cells =
        [\<lparr>cvalue = VStr ''x'', observers = [Some (1, ''name''), Some (2, ''name'')]\<rparr>,
         \<lparr>cvalue = VStr ''P'',
            observers = [Some (0, ''name''), Some (1, ''name''), Some (2, ''name''),
                         Some (3, ''name'')]\<rparr>]\<rparr>"

text \<open>
  \<open>ex_failed\<close> after \<^verbatim>\<open>o3.bindTo('name', o2)\<close>, and then after
  \<^verbatim>\<open>o2.bindTo('name', o4)\<close>.
\<close>

definition ex_stale :: heap where
  "ex_stale =
     \<lparr>objs =
        [[(''name'', VDesc 0 [1] (Some 0))],
         [(''name'', VDesc 1 [] (Some 0)), (''nameChanged'', VFun 1)],
         [(''name'', VDesc 0 [1, 1] (Some 1))],
         [(''name'', VDesc 1 [] (Some 1)), (''nameChanged'', VFun 2)],
         [(''name'', VStr ''r'')]],
      cells =
        [\<lparr>cvalue = VStr ''Bob'', observers = [Some (0, ''name''), Some (1, ''name'')]\<rparr>,
         \<lparr>cvalue = VStr ''q'', observers = [Some (2, ''name''), Some (3, ''name'')]\<rparr>]\<rparr>"

definition ex_skewed :: heap where
  "ex_skewed =
     \<lparr>objs =
        [[(''name'', VDesc 0 [1] (Some 0))],
         [(''name'', VDesc 1 [] (Some 0)), (''nameChanged'', VFun 1)],
         [(''name'', VDesc 1 [2, 2] (Some 2))],
         [(''name'', VDesc 3 [] (Some 2)), (''nameChanged'', VFun 2)],
         [(''name'', VDesc 0 [1] (Some 2))]],
      cells =
        [\<lparr>cvalue = VStr ''Bob'', observers = [Some (0, ''name''), Some (1, ''name'')]\<rparr>,
         \<lparr>cvalue = VStr ''q'', observers = [Some (2, ''name''), Some (3, ''name'')]\<rparr>,
         \<lparr>cvalue = VStr ''r'',
            observers = [Some (4, ''name''), Some (2, ''name''), Some (3, ''name'')]\<rparr>]\<rparr>"

section \<open>Properties\<close>

subsection \<open>Reading and writing the store\<close>

lemma obj_at_set_attr:
  "obj_at (set_attr h a k v) a' =
     (if a' = a \<and> a < length (objs h) then AList.update k v (obj_at h a) else obj_at h a')"
  by (simp add: obj_at_def set_attr_def)

lemma attr_set_attr:
  "attr (set_attr h a k v) a' k' =
     (if a' = a \<and> k' = k \<and> a < length (objs h) then v else attr h a' k')"
  by (simp add: attr_def obj_at_set_attr update_conv')

lemma has_attr_set_attr:
  "has_attr (set_attr h a k v) a' k' =
     ((a' = a \<and> k' = k \<and> a < length (objs h)) \<or> has_attr h a' k')"
  by (auto simp: has_attr_def obj_at_set_attr update_conv')

lemma cell_at_set_attr: "cell_at (set_attr h a k v) c = cell_at h c"
  by (simp add: cell_at_def set_attr_def)

lemma attr_set_cell: "attr (set_cell h c cl) a k = attr h a k"
  by (simp add: attr_def obj_at_def set_cell_def)

lemma has_attr_set_cell: "has_attr (set_cell h c cl) a k = has_attr h a k"
  by (simp add: has_attr_def obj_at_def set_cell_def)

lemma cell_at_set_cell:
  "cell_at (set_cell h c cl) c' =
     (if c' = c \<and> c < length (cells h) then Some cl else cell_at h c')"
  by (simp add: cell_at_def set_cell_def)

lemma has_attr_valid: "has_attr h a k \<Longrightarrow> a < length (objs h)"
  by (auto simp: has_attr_def obj_at_def split: if_splits)

lemma attr_cells_update: "attr (h\<lparr>cells := cs\<rparr>) a k = attr h a k"
  by (simp add: attr_def obj_at_def)

lemma has_attr_cells_update: "has_attr (h\<lparr>cells := cs\<rparr>) a k = has_attr h a k"
  by (simp add: has_attr_def obj_at_def)

lemma length_objs_set_attr: "length (objs (set_attr h a k v)) = length (objs h)"
  by (simp add: set_attr_def)

lemma cells_set_attr: "cells (set_attr h a k v) = cells h"
  by (simp add: set_attr_def)

lemma length_objs_set_cell: "objs (set_cell h c cl) = objs h"
  by (simp add: set_cell_def)

lemma attr_promote:
  "attr (promote h target tk) a k =
     (if a = target \<and> k = tk \<and> target < length (objs h)
      then VDesc 0 [] (Some (length (cells h))) else attr h a k)"
  by (simp add: promote_def attr_set_attr attr_cells_update)

lemma has_attr_promote:
  "has_attr (promote h target tk) a k =
     ((a = target \<and> k = tk \<and> target < length (objs h)) \<or> has_attr h a k)"
  by (simp add: promote_def has_attr_set_attr has_attr_cells_update)

lemma cell_at_promote:
  "cell_at (promote h target tk) c =
     (if c = length (cells h)
      then Some \<lparr>cvalue = attr h target tk, observers = [Some (target, tk)]\<rparr>
      else cell_at h c)"
  by (simp add: promote_def cell_at_set_attr) (simp add: cell_at_def nth_append)

lemma length_objs_promote: "length (objs (promote h target tk)) = length (objs h)"
  by (simp add: promote_def length_objs_set_attr)

subsection \<open>\<open>get\<close>\<close>

text \<open>
  C8, as the source has it. \<open>get\<close> returns the value of the shared object when the
  attribute holds a descriptor whose shared object is set, and the raw attribute when
  \<open>_isPropertyBound\<close> is false, which for an absent key is \<^verbatim>\<open>undefined\<close>; in these
  cases it does not fail. (\<open>get\<close> takes the store and returns a value only: it writes
  nothing and calls nothing.) The remaining case is an ordinary object that has a
  \<^verbatim>\<open>__myIndex\<close> attribute.
\<close>

theorem get_value:
  "(attr h this key = VDesc i os (Some c) \<longrightarrow> cell_at h c = Some cl \<longrightarrow>
      get h this key = Inr (cvalue cl)) \<and>
   (\<not> isPropertyBound h this key \<longrightarrow> get h this key = Inr (attr h this key)) \<and>
   (\<not> has_attr h this key \<longrightarrow> get h this key = Inr VUndef)"
  by (auto simp: get_def isPropertyBound_def has_attr_def attr_def)

theorem get_value_witness:
  "get ex_bound 1 ''name'' = Inr (VStr ''Bob'') \<and>
   get ex_bound 3 ''name'' = Inr (VStr ''z'') \<and>
   get ex_bound 3 ''age'' = Inr VUndef"
proof -
  have a: "attr ex_bound 1 ''name'' = VDesc 1 [] (Some 0)"
    by (simp add: attr_def obj_at_def ex_bound_def)
  have c: "cell_at ex_bound 0 =
      Some \<lparr>cvalue = VStr ''Bob'', observers = [Some (0, ''name''), Some (1, ''name'')]\<rparr>"
    by (simp add: cell_at_def ex_bound_def)
  have p: "\<not> isPropertyBound ex_bound 3 ''name''"
    by (simp add: isPropertyBound_def attr_def obj_at_def ex_bound_def)
  have v: "attr ex_bound 3 ''name'' = VStr ''z''"
    by (simp add: attr_def obj_at_def ex_bound_def)
  have m: "\<not> has_attr ex_bound 3 ''age''"
    by (simp add: has_attr_def obj_at_def ex_bound_def)
  from get_value [of ex_bound 1 "''name''" 1 "[]" 0 _] a c
  have "get ex_bound 1 ''name'' = Inr (VStr ''Bob'')" by simp
  moreover from get_value [of ex_bound 3 "''name''"] p v
  have "get ex_bound 3 ''name'' = Inr (VStr ''z'')" by simp
  moreover from get_value [of ex_bound 3 "''age''"] m
  have "get ex_bound 3 ''age'' = Inr VUndef" by simp
  ultimately show ?thesis by simp
qed

text \<open>
  C8 as stated fails: the attribute \<open>k\<close> of the first object of \<open>ex_lookalike\<close> was never
  bound and holds the ordinary object \<^verbatim>\<open>{__myIndex: 7}\<close>; \<open>get\<close> does not return
  it but throws, on \<^verbatim>\<open>undefined.__value\<close>.
\<close>

theorem get_lookalike_fails: "get ex_lookalike 0 ''k'' = Inl TypeError"
  by code_simp

subsection \<open>\<open>set\<close>\<close>

text \<open>
  C6. When \<open>get\<close> returns \<open>v\<close> and \<open>forceCallback\<close> is not set, \<open>set\<close> with \<open>v\<close>
  invokes no callback and leaves the store as it is, for a plain and for a bound
  attribute. (On an absent key \<open>get\<close> returns \<^verbatim>\<open>undefined\<close> and \<open>set\<close> throws, still
  without a callback or a write.)
\<close>

theorem set_unchanged_noop:
  "get h this key = Inr v \<Longrightarrow>
   set_kvo h this key v False =
     (if has_attr h this key then None else Some (UndefinedAttribute key), h, [])"
  by (auto simp: get_def set_kvo_def isPropertyBound_def
           split: if_splits val.splits option.splits sum.splits)

theorem set_unchanged_noop_witness:
  "get ex_bound 1 ''name'' = Inr (VStr ''Bob'') \<and>
   set_kvo ex_bound 1 ''name'' (VStr ''Bob'') False = (None, ex_bound, [])"
proof -
  have g: "get ex_bound 1 ''name'' = Inr (VStr ''Bob'')"
    by (simp add: get_def isPropertyBound_def attr_def obj_at_def cell_at_def ex_bound_def)
  have a: "has_attr ex_bound 1 ''name''"
    by (simp add: has_attr_def obj_at_def ex_bound_def)
  show ?thesis
    using g set_unchanged_noop [OF g] a by simp
qed

text \<open>
  C7 fails on a plain attribute: lines 226 to 228 return on an unchanged value without
  looking at \<open>forceCallback\<close>. The second object of \<open>ex_plain\<close> defines \<open>nameChanged\<close>
  and its \<open>name\<close> is \<open>x\<close>; \<^verbatim>\<open>set('name', 'x', true)\<close> calls nothing.
\<close>

theorem set_plain_ignores_forceCallback:
  "set_kvo ex_plain 1 ''name'' (VStr ''x'') True = (None, ex_plain, [])"
  by (simp add: set_kvo_def has_attr_def isPropertyBound_def attr_def obj_at_def ex_plain_def)

lemma set_plain_forceCallback:
  "\<not> isPropertyBound h this key \<Longrightarrow>
   set_kvo h this key v True = set_kvo h this key v False"
  by (simp add: set_kvo_def)






subsection \<open>\<open>bindTo\<close>: the errors and \<open>noNotify\<close>\<close>

text \<open>
  C9. When the target has no attribute \<^verbatim>\<open>targetKey || key\<close> (tested with \<^verbatim>\<open>in\<close>,
  whatever the attribute would hold), \<open>bindTo\<close> throws the error of line 95; the store is
  the one it was given and no callback has run.
\<close>

theorem bindTo_missing_attribute:
  "\<not> has_attr h target (default_key targetKey key) \<Longrightarrow>
   bindTo depth h this key target targetKey noNotify =
     (Some (MissingAttribute (default_key targetKey key)), h, [])"
  by (simp add: bindTo_def)

theorem bindTo_missing_attribute_witness:
  "\<not> has_attr ex_bound 0 (default_key (Some ''age'') ''name'') \<and>
   bindTo 10 ex_bound 1 ''name'' 0 (Some ''age'') True =
     (Some (MissingAttribute ''age''), ex_bound, [])"
proof -
  have m: "\<not> has_attr ex_bound 0 (default_key (Some ''age'') ''name'')"
    by (simp add: has_attr_def obj_at_def ex_bound_def default_key_def)
  have k: "default_key (Some ''age'') ''name'' = ''age''"
    by (simp add: default_key_def)
  show ?thesis
    using m bindTo_missing_attribute [OF m, of 10 1 True] by (simp add: k)
qed

text \<open>
  C4 fails. In \<open>ex_bound\<close> the attribute \<open>name\<close> of the second object is an observer at
  index 1. Binding it to the third object throws the error of line 123, but lines 102 and
  116 have already run: the target's attribute has become a descriptor with a new shared
  object, and its \<^verbatim>\<open>__observerIndexes\<close> holds an index at which nothing was added.
\<close>

theorem bindTo_already_sourced_mutates:
  "bindTo 10 ex_bound 1 ''name'' 2 None False = (Some (AlreadySourced ''name''), ex_failed, []) \<and>
   ex_failed \<noteq> ex_bound \<and>
   attr ex_bound 2 ''name'' = VStr ''q'' \<and>
   attr ex_failed 2 ''name'' = VDesc 0 [1] (Some 1)"
  by code_simp

text \<open>
  C5 fails. The test of line 163 compares the loop key, a string, with a number, so
  \<open>noNotify\<close> never suppresses a call: binding the plain \<open>name\<close> of the second object of
  \<open>ex_plain\<close> to the first with \<open>noNotify\<close> set calls its \<open>nameChanged\<close>.
\<close>

theorem bindTo_noNotify_still_notifies:
  "bindTo 10 ex_plain 1 ''name'' 0 None True = (None, ex_bound, [Call 1 ''nameChanged'' []])"
  by code_simp

lemma for_in_key_not_number: "for_in_key i \<noteq> VNum n"
  by (simp add: for_in_key_def)

lemma bind_loop_noNotify:
  "bind_loop h c cv ov n True es = bind_loop h c cv ov n False es"
  by (induction h c cv ov n True es rule: bind_loop.induct)
     (simp_all add: for_in_key_not_number split: sum.splits)

lemma bindTo_noNotify:
  "bindTo depth h this key target targetKey True =
   bindTo depth h this key target targetKey False"
proof -
  have "run_bind_loop h3 c ov n True = run_bind_loop h3 c ov n False" for h3 c ov n
    by (simp add: run_bind_loop_def bind_loop_noNotify split: option.splits)
  then show ?thesis
    by (simp add: bindTo_def Let_def
             cong: val.case_cong option.case_cong sum.case_cong prod.case_cong if_cong)
qed

subsection \<open>Classification by shape\<close>

text \<open>
  C10. \<open>_isPropertyBound\<close> is true exactly when the attribute holds an object (a
  descriptor, or an ordinary object) that has \<^verbatim>\<open>__myIndex\<close>. So when an attribute holds
  an ordinary object with a \<^verbatim>\<open>__myIndex\<close> and no \<^verbatim>\<open>__sharedObject\<close>, it is classified
  as bound, \<open>get\<close> throws instead of returning the object, \<open>set\<close> takes the bound path
  and throws without writing, and, when \<^verbatim>\<open>__myIndex\<close> is not \<open>0\<close>, \<open>bindTo\<close> with this
  attribute as the source and a plain target throws the error of line 123.
\<close>

theorem isPropertyBound_structural:
  "(isPropertyBound h this key \<longleftrightarrow>
      (\<exists>i os s. attr h this key = VDesc i os s) \<or>
      (\<exists>a. attr h this key = VRef a \<and> has_attr h a ''__myIndex'')) \<and>
   (attr h this key = VRef a \<and> has_attr h a ''__myIndex'' \<and>
    \<not> has_attr h a ''__sharedObject'' \<longrightarrow>
      isPropertyBound h this key \<and>
      get h this key = Inl TypeError \<and>
      set_kvo h this key v forceCallback = (Some TypeError, h, []) \<and>
      (attr h a ''__myIndex'' \<noteq> VNum 0 \<and> has_attr h target (default_key targetKey key) \<and>
       \<not> isPropertyBound h target (default_key targetKey key) \<longrightarrow>
         fst (bindTo depth h this key target targetKey noNotify) = Some (AlreadySourced key)))"
proof -
  have struct: "isPropertyBound h this key \<longleftrightarrow>
      (\<exists>i os s. attr h this key = VDesc i os s) \<or>
      (\<exists>a. attr h this key = VRef a \<and> has_attr h a ''__myIndex'')"
    by (auto simp: isPropertyBound_def split: val.splits)
  have rest: "isPropertyBound h this key \<and>
      get h this key = Inl TypeError \<and>
      set_kvo h this key v forceCallback = (Some TypeError, h, []) \<and>
      (attr h a ''__myIndex'' \<noteq> VNum 0 \<and> has_attr h target (default_key targetKey key) \<and>
       \<not> isPropertyBound h target (default_key targetKey key) \<longrightarrow>
         fst (bindTo depth h this key target targetKey noNotify) = Some (AlreadySourced key))"
    if slot: "attr h this key = VRef a" and idx: "has_attr h a ''__myIndex''"
      and nosh: "\<not> has_attr h a ''__sharedObject''"
  proof -
    have b: "isPropertyBound h this key"
      using slot idx by (simp add: isPropertyBound_def)
    have sh: "attr h a ''__sharedObject'' = VUndef"
      using nosh by (simp add: has_attr_def attr_def)
    have g: "get h this key = Inl TypeError"
      using b slot sh by (simp add: get_def)
    have ha: "has_attr h this key"
      using slot by (auto simp: has_attr_def attr_def split: option.splits)
    have s: "set_kvo h this key v forceCallback = (Some TypeError, h, [])"
      using b slot sh ha by (simp add: set_kvo_def)
    have bd: "fst (bindTo depth h this key target targetKey noNotify) = Some (AlreadySourced key)"
      if nz: "attr h a ''__myIndex'' \<noteq> VNum 0"
        and ht: "has_attr h target (default_key targetKey key)"
        and pl: "\<not> isPropertyBound h target (default_key targetKey key)"
    proof -
      define tk where "tk = default_key targetKey key"
      define h1 where "h1 = promote h target tk"
      define c where "c = length (cells h)"
      define h2 where "h2 = set_attr h1 target tk (VDesc 0 [Suc 0] (Some c))"
      have ne: "(this, key) \<noteq> (target, tk)"
        using b pl by (auto simp: tk_def)
      have tv: "target < length (objs h)"
        using ht by (rule has_attr_valid)
      have t1: "attr h1 target tk = VDesc 0 [] (Some c)"
        using tv by (simp add: h1_def c_def attr_promote)
      have c1: "cell_at h1 c = Some \<lparr>cvalue = attr h target tk, observers = [Some (target, tk)]\<rparr>"
        by (simp add: h1_def c_def cell_at_promote)
      have s2: "attr h2 this key = VRef a"
        using ne slot by (auto simp: h2_def h1_def attr_set_attr attr_promote)
      have i2: "has_attr h2 a ''__myIndex''"
        using idx by (simp add: h2_def h1_def has_attr_set_attr has_attr_promote)
      have n2: "attr h2 a ''__myIndex'' \<noteq> VNum 0"
        using nz tv by (auto simp: h2_def h1_def attr_set_attr attr_promote length_objs_promote)
      have j: "join_source depth h2 this key c 1 = Inl (AlreadySourced key, h2)"
        using s2 i2 n2 by (simp add: join_source_def isPropertyBound_def)
      show ?thesis
        using ht pl t1 c1 j
        by (simp add: bindTo_def tk_def [symmetric] h1_def [symmetric] h2_def [symmetric])
    qed
    show ?thesis using b g s bd by blast
  qed
  show ?thesis using struct rest by blast
qed


theorem isPropertyBound_structural_witness:
  "isPropertyBound ex_lookalike 0 ''k'' \<and>
   get ex_lookalike 0 ''k'' \<noteq> Inr (attr ex_lookalike 0 ''k'') \<and>
   set_kvo ex_lookalike 0 ''k'' (VNum 1) False = (Some TypeError, ex_lookalike, []) \<and>
   fst (bindTo 10 ex_lookalike 0 ''k'' 2 None False) = Some (AlreadySourced ''k'')"
proof -
  have a: "attr ex_lookalike 0 ''k'' = VRef 1"
    by (simp add: attr_def obj_at_def ex_lookalike_def)
  have i: "has_attr ex_lookalike 1 ''__myIndex''"
    by (simp add: has_attr_def obj_at_def ex_lookalike_def)
  have n: "\<not> has_attr ex_lookalike 1 ''__sharedObject''"
    by (simp add: has_attr_def obj_at_def ex_lookalike_def)
  have z: "attr ex_lookalike 1 ''__myIndex'' \<noteq> VNum 0"
    by (simp add: attr_def obj_at_def ex_lookalike_def)
  have t: "has_attr ex_lookalike 2 (default_key None ''k'')"
    by (simp add: has_attr_def obj_at_def ex_lookalike_def default_key_def)
  have p: "\<not> isPropertyBound ex_lookalike 2 (default_key None ''k'')"
    by (simp add: isPropertyBound_def attr_def obj_at_def ex_lookalike_def default_key_def)
  show ?thesis
    using isPropertyBound_structural
      [of ex_lookalike 0 "''k''" 1 "VNum 1" False 2 None 10 False] a i n z t p
    by simp
qed

subsection \<open>\<open>_updateObserverIndexes\<close> writes index fields only\<close>

lemma same_wiring_refl: "same_wiring h h"
  by (simp add: same_wiring_def)

lemma same_wiring_trans: "same_wiring h h1 \<Longrightarrow> same_wiring h1 h2 \<Longrightarrow> same_wiring h h2"
  by (simp add: same_wiring_def)

lemma attr_desc_has_attr: "attr h a k = VDesc i os s \<Longrightarrow> has_attr h a k"
  by (auto simp: has_attr_def attr_def split: option.splits)

lemma same_wiring_set_desc:
  "attr h a k = VDesc i os s \<Longrightarrow> same_wiring h (set_attr h a k (VDesc i' os' s))"
  by (frule attr_desc_has_attr)
     (auto simp: same_wiring_def cells_set_attr length_objs_set_attr has_attr_set_attr
        attr_set_attr)

lemma bump_self_Inl: "bump_self h this key off = Inl (e, h1) \<Longrightarrow> h1 = h"
  by (auto simp: bump_self_def split: val.splits)

lemma bump_self_Inr:
  "bump_self h this key off = Inr (h1, len) \<Longrightarrow> same_wiring h h1"
  by (auto simp: bump_self_def same_wiring_set_desc split: val.splits)

lemma bump_index_Inr:
  "bump_index h this key j off = Inr h1 \<Longrightarrow> same_wiring h h1"
  by (auto simp: bump_index_def same_wiring_set_desc split: val.splits)

lemma update_same_wiring:
  "same_wiring h (snd (updateObserverIndexes d h this key off))"
  "same_wiring h (snd (visit d h e off))"
  "same_wiring h (snd (update_loop d h this key off js))"
proof (induction d h this key off and d h e off and d h this key off js
       rule: updateObserverIndexes_visit_update_loop.induct)
  case (1 h this key offsetIncrease)
  then show ?case by (simp add: same_wiring_refl)
next
  case (2 d h this key offsetIncrease)
  show ?case
  proof (cases "bump_self h this key offsetIncrease")
    case (Inl r)
    then show ?thesis
      by (cases r) (auto dest: bump_self_Inl simp: same_wiring_refl)
  next
    case (Inr p)
    obtain h1 len where p: "p = (h1, len)" by (cases p)
    from Inr p have "same_wiring h h1" by (auto dest: bump_self_Inr)
    moreover have "same_wiring h1 (snd (update_loop d h1 this key offsetIncrease [0..<len]))"
      using 2 Inr p by simp
    ultimately show ?thesis
      using Inr p by (auto intro: same_wiring_trans)
  qed
next
  case (3 d h offsetIncrease)
  then show ?case by (simp add: same_wiring_refl)
next
  case (4 d h ob k offsetIncrease)
  then show ?case by simp
next
  case (5 d h this key offsetIncrease)
  then show ?case by (simp add: same_wiring_refl)
next
  case (6 d h this key offsetIncrease j js)
  show ?case
  proof (cases "observer_at h this key j")
    case (Inl e)
    then show ?thesis by (simp add: same_wiring_refl)
  next
    case (Inr ent)
    note ent = this
    obtain r h1 where v: "visit d h ent offsetIncrease = (r, h1)"
      by (cases "visit d h ent offsetIncrease")
    have w1: "same_wiring h h1" using 6(1) [OF ent] v by simp
    show ?thesis
    proof (cases r)
      case (Some e)
      then show ?thesis using ent v w1 by simp
    next
      case None
      show ?thesis
      proof (cases "bump_index h1 this key j offsetIncrease")
        case (Inl e)
        then show ?thesis using ent v None w1 by simp
      next
        case (Inr h2)
        have w2: "same_wiring h1 h2" using Inr by (rule bump_index_Inr)
        have "same_wiring h2 (snd (update_loop d h2 this key offsetIncrease js))"
          using 6(2) [OF ent _ _ Inr] v None by simp
        then show ?thesis
          using ent v None Inr w1 w2 by (auto intro: same_wiring_trans)
      qed
    qed
  qed
qed

subsection \<open>The wiring invariant and the join loop\<close>

lemma set_live_entries: "set (live_entries es) = {p. Some p \<in> set es}"
  by (induction es rule: live_entries.induct) auto

lemma live_entries_append: "live_entries (xs @ ys) = live_entries xs @ live_entries ys"
  by (induction xs rule: live_entries.induct) auto

lemma slots_iff: "(a, k) \<in> set (slots h) \<longleftrightarrow> has_attr h a k"
proof -
  have "has_attr h a k \<longleftrightarrow> k \<in> fst ` set (obj_at h a)"
    by (simp add: has_attr_def map_of_eq_None_iff)
  moreover have "(a, k) \<in> set (slots h) \<longleftrightarrow> a < length (objs h) \<and> k \<in> fst ` set (obj_at h a)"
    by (auto simp: slots_def)
  moreover have "k \<in> fst ` set (obj_at h a) \<Longrightarrow> a < length (objs h)"
    by (auto simp: obj_at_def split: if_splits)
  ultimately show ?thesis by blast
qed

lemma wired_iff:
  "wired h \<longleftrightarrow>
     (\<forall>a k i os s. attr h a k = VDesc i os s \<longrightarrow>
        (\<exists>c cl. s = Some c \<and> cell_at h c = Some cl \<and>
           (a, k) \<in> set (live_entries (observers cl)) \<and>
           (\<forall>q \<in> set (live_entries (observers cl)). points_at h c q)))"
    (is "_ \<longleftrightarrow> ?R")
proof
  assume w: "wired h"
  show ?R
  proof (intro allI impI)
    fix a k i os s
    assume d: "attr h a k = VDesc i os s"
    then have "(a, k) \<in> set (slots h)"
      by (simp add: slots_iff attr_desc_has_attr)
    with w have "slot_wired h (a, k)"
      by (simp add: wired_def list_all_iff)
    with d show "\<exists>c cl. s = Some c \<and> cell_at h c = Some cl \<and>
           (a, k) \<in> set (live_entries (observers cl)) \<and>
           (\<forall>q \<in> set (live_entries (observers cl)). points_at h c q)"
      by (auto simp: slot_wired_def list_all_iff split: option.splits)
  qed
next
  assume r: ?R
  show "wired h"
    unfolding wired_def list_all_iff
  proof
    fix p assume "p \<in> set (slots h)"
    obtain a k where p: "p = (a, k)" by (cases p)
    show "slot_wired h p"
    proof (cases "attr h a k")
      case (VDesc i os s)
      with r obtain c cl where "s = Some c" "cell_at h c = Some cl"
        "(a, k) \<in> set (live_entries (observers cl))"
        "\<forall>q \<in> set (live_entries (observers cl)). points_at h c q"
        by blast
      with VDesc p show ?thesis
        by (simp add: slot_wired_def list_all_iff)
    qed (simp_all add: slot_wired_def p)
  qed
qed

lemma repoint_idem: "repoint c (repoint c v) = repoint c v"
  by (cases v) simp_all

lemma repointed_empty: "repointed {} c h h"
  by (simp add: repointed_def)

lemma repointed_trans:
  "repointed S c h h1 \<Longrightarrow> repointed S' c h1 h2 \<Longrightarrow> repointed (S \<union> S') c h h2"
  by (auto simp: repointed_def repoint_idem)

lemma point_to_Inr:
  "repointed {(ob, k)} c h h1" if "point_to h ob k c = Inr h1"
proof (cases "attr h ob k")
  case (VDesc i os s)
  then have "ob < length (objs h)"
    by (blast dest: attr_desc_has_attr has_attr_valid)
  then show ?thesis
    using VDesc that attr_desc_has_attr [OF VDesc]
    by (auto simp: point_to_def repointed_def cells_set_attr length_objs_set_attr
          has_attr_set_attr attr_set_attr)
qed (use that in \<open>auto simp: point_to_def repointed_def\<close>)

lemma bind_loop_success:
  "bind_loop h c cv ov n noNotify es = (None, h', cs) \<Longrightarrow>
   repointed {p. \<exists>i\<ge>n. (i, Some p) \<in> set es} c h h'"
proof (induction h c cv ov n noNotify es arbitrary: h' cs rule: bind_loop.induct)
  case (1 h c cv ov n noNotify)
  then show ?case by (simp add: repointed_empty)
next
  case (2 h c cv ov n noNotify i es)
  then show ?case by simp
next
  case (3 h c cv ov n noNotify i ob k es)
  show ?case
  proof (cases "i < n")
    case True
    with 3 have "repointed {p. \<exists>i\<ge>n. (i, Some p) \<in> set es} c h h'" by simp
    moreover have "{p. \<exists>j\<ge>n. (j, Some p) \<in> set ((i, Some (ob, k)) # es)} =
        {p. \<exists>i\<ge>n. (i, Some p) \<in> set es}"
      using True by auto
    ultimately show ?thesis by simp
  next
    case False
    with "3.prems" obtain h1 where pt: "point_to h ob k c = Inr h1"
      by (cases "point_to h ob k c") auto
    have r1: "repointed {(ob, k)} c h h1" using pt by (rule point_to_Inr)
    have "\<exists>cs'. bind_loop h1 c cv ov n noNotify es = (None, h', cs')"
      using "3.prems" False pt
      by (auto split: if_splits sum.splits prod.splits)
    then obtain cs' where bl: "bind_loop h1 c cv ov n noNotify es = (None, h', cs')" ..
    have r2: "repointed {p. \<exists>i\<ge>n. (i, Some p) \<in> set es} c h1 h'"
    proof (cases "cv = ov \<or> for_in_key i = VNum (int n) \<and> noNotify")
      case True
      from "3.IH"(2) [OF False pt True bl] show ?thesis .
    next
      case nf: False
      from bl "3.prems" False pt nf obtain cs1 where cc: "call_changed h1 ob k = Inr cs1"
        by (cases "call_changed h1 ob k") auto
      from "3.IH"(3) [OF False pt nf cc bl] show ?thesis .
    qed
    have "{p. \<exists>j\<ge>n. (j, Some p) \<in> set ((i, Some (ob, k)) # es)} =
        {(ob, k)} \<union> {p. \<exists>i\<ge>n. (i, Some p) \<in> set es}"
      using False by (fastforce simp: not_less)
    with repointed_trans [OF r1 r2] show ?thesis by simp
  qed
qed

lemma in_set_zip_upt:
  "(i, x) \<in> set (zip [0..<length xs] xs) \<longleftrightarrow> i < length xs \<and> xs ! i = x"
proof
  assume "(i, x) \<in> set (zip [0..<length xs] xs)"
  then show "i < length xs \<and> xs ! i = x" by (auto simp: set_zip)
next
  assume a: "i < length xs \<and> xs ! i = x"
  then have "(i, x) = ([0..<length xs] ! i, xs ! i)" by simp
  with a show "(i, x) \<in> set (zip [0..<length xs] xs)"
    unfolding set_zip by (intro CollectI exI [of _ i]) simp
qed

lemma run_bind_loop_success:
  assumes "run_bind_loop h c ov n noNotify = (None, h', cs)"
  shows "\<exists>cl. cell_at h c = Some cl \<and>
           repointed (set (live_entries (drop n (observers cl)))) c h h'"
proof -
  from assms obtain cl where cl: "cell_at h c = Some cl"
    and bl: "bind_loop h c (cvalue cl) ov n noNotify
               (zip [0..<length (observers cl)] (observers cl)) = (None, h', cs)"
    by (auto simp: run_bind_loop_def split: option.splits)
  have "{p. \<exists>i\<ge>n. (i, Some p) \<in> set (zip [0..<length (observers cl)] (observers cl))} =
      set (live_entries (drop n (observers cl)))"
    (is "?A = ?B")
  proof
    show "?A \<subseteq> ?B"
    proof
      fix p assume "p \<in> ?A"
      then obtain i where i: "n \<le> i" "(i, Some p) \<in> set (zip [0..<length (observers cl)] (observers cl))"
        by blast
      then have "i < length (observers cl)" "observers cl ! i = Some p"
        by (simp_all add: in_set_zip_upt)
      with i(1) have "drop n (observers cl) ! (i - n) = Some p" "i - n < length (drop n (observers cl))"
        by auto
      then have "Some p \<in> set (drop n (observers cl))"
        by (metis nth_mem)
      then show "p \<in> ?B" by (simp add: set_live_entries)
    qed
    show "?B \<subseteq> ?A"
    proof
      fix p assume "p \<in> ?B"
      then have "Some p \<in> set (drop n (observers cl))" by (simp add: set_live_entries)
      then obtain j where j: "j < length (drop n (observers cl))" "drop n (observers cl) ! j = Some p"
        by (auto simp: in_set_conv_nth)
      then have "n + j < length (observers cl)" "observers cl ! (n + j) = Some p"
        by auto
      then have "(n + j, Some p) \<in> set (zip [0..<length (observers cl)] (observers cl))"
        by (simp add: in_set_zip_upt)
      then show "p \<in> ?A" by (intro CollectI exI [of _ "n + j"]) simp
    qed
  qed
  with bind_loop_success [OF bl] cl show ?thesis by simp
qed

lemma bindTo_success:
  assumes "bindTo depth h this key target targetKey noNotify = (None, h', cs)"
  defines "tk \<equiv> default_key targetKey key"
  defines "h1 \<equiv> (if \<not> isPropertyBound h target tk then promote h target tk else h)"
  shows "has_attr h target tk \<and>
         (\<exists>i os c cl h3 ov.
            attr h1 target tk = VDesc i os (Some c) \<and> cell_at h1 c = Some cl \<and>
            join_source depth
              (set_attr h1 target tk (VDesc i (os @ [length (observers cl)]) (Some c)))
              this key c (length (observers cl)) = Inr (h3, ov) \<and>
            run_bind_loop h3 c ov (length (observers cl)) noNotify = (None, h', cs))"
  using assms(1) unfolding bindTo_def tk_def [symmetric] Let_def h1_def [symmetric]
  by (auto split: if_splits val.splits option.splits sum.splits prod.splits)

lemma join_source_success:
  assumes "join_source depth h2 this key c n = Inr (h3, ov)"
  shows "(\<exists>sos sc hu tcl scl.
            attr h2 this key = VDesc 0 sos (Some sc) \<and>
            updateObserverIndexes depth h2 this key n = (None, hu) \<and>
            cell_at hu c = Some tcl \<and> cell_at hu sc = Some scl \<and>
            h3 = set_cell hu c (tcl\<lparr>observers := observers tcl @ observers scl\<rparr>) \<and>
            ov = cvalue scl) \<or>
         (\<not> isPropertyBound h2 this key \<and>
          (\<exists>tcl. cell_at h2 c = Some tcl \<and>
             h3 = set_cell (set_attr h2 this key (VDesc n [] None)) c
                    (tcl\<lparr>observers := observers tcl @ [Some (this, key)]\<rparr>) \<and>
             ov = attr h2 this key))"
  using assms unfolding join_source_def
  by (auto simp: cell_at_set_attr Let_def
           split: if_splits val.splits option.splits sum.splits prod.splits)

lemma erase_eq_desc:
  "erase v' = erase v \<Longrightarrow> v' = VDesc i os s \<Longrightarrow> \<exists>i0 os0. v = VDesc i0 os0 s"
  by (cases v) auto

lemma same_wiring_sym: "same_wiring h h' \<Longrightarrow> same_wiring h' h"
  by (simp add: same_wiring_def)

lemma same_wiring_desc:
  "same_wiring h h' \<Longrightarrow> attr h' a k = VDesc i os s \<Longrightarrow> \<exists>i0 os0. attr h a k = VDesc i0 os0 s"
  by (metis erase_eq_desc same_wiring_def)

lemma same_wiring_cell_at: "same_wiring h h' \<Longrightarrow> cell_at h' c = cell_at h c"
  by (simp add: same_wiring_def cell_at_def)

lemma same_wiring_points_at:
  assumes "same_wiring h h'"
  shows "points_at h' c q = points_at h c q"
proof -
  have "erase (attr h' (fst q) (snd q)) = erase (attr h (fst q) (snd q))"
    using assms by (simp add: same_wiring_def)
  then show ?thesis
    by (cases "attr h' (fst q) (snd q)"; cases "attr h (fst q) (snd q)")
       (simp_all add: points_at_def)
qed

lemma same_wiring_wired:
  assumes w: "wired h" and sw: "same_wiring h h'"
  shows "wired h'"
  unfolding wired_iff
proof (intro allI impI)
  fix a k i os s
  assume "attr h' a k = VDesc i os s"
  with sw obtain i0 os0 where "attr h a k = VDesc i0 os0 s"
    by (blast dest: same_wiring_desc)
  with w obtain c cl where c: "s = Some c" "cell_at h c = Some cl"
      "(a, k) \<in> set (live_entries (observers cl))"
      "\<forall>q \<in> set (live_entries (observers cl)). points_at h c q"
    unfolding wired_iff by blast
  then show "\<exists>c cl. s = Some c \<and> cell_at h' c = Some cl \<and>
      (a, k) \<in> set (live_entries (observers cl)) \<and>
      (\<forall>q \<in> set (live_entries (observers cl)). points_at h' c q)"
    using sw by (auto simp: same_wiring_cell_at same_wiring_points_at)
qed

lemma not_bound_not_desc:
  "\<not> isPropertyBound h a k \<Longrightarrow> attr h a k \<noteq> VDesc i os s"
  by (auto simp: isPropertyBound_def)

lemma points_at_desc:
  "points_at h c q \<longleftrightarrow> (\<exists>i os. attr h (fst q) (snd q) = VDesc i os (Some c))"
  by (cases "attr h (fst q) (snd q)") (simp_all add: points_at_def)

lemma promote_wired:
  assumes w: "wired h" and ha: "has_attr h target tk" and nb: "\<not> isPropertyBound h target tk"
  shows "wired (promote h target tk)"
  unfolding wired_iff
proof (intro allI impI)
  let ?h = "promote h target tk"
  let ?c = "length (cells h)"
  fix a k i os s
  assume d: "attr ?h a k = VDesc i os s"
  have tv: "target < length (objs h)" using ha by (rule has_attr_valid)
  show "\<exists>c cl. s = Some c \<and> cell_at ?h c = Some cl \<and>
      (a, k) \<in> set (live_entries (observers cl)) \<and>
      (\<forall>q \<in> set (live_entries (observers cl)). points_at ?h c q)"
  proof (cases "(a, k) = (target, tk)")
    case True
    with d tv have "s = Some ?c" by (simp add: attr_promote)
    moreover have "cell_at ?h ?c = Some \<lparr>cvalue = attr h target tk, observers = [Some (target, tk)]\<rparr>"
      by (simp add: cell_at_promote)
    moreover have "points_at ?h ?c (target, tk)"
      using tv by (simp add: points_at_def attr_promote)
    ultimately show ?thesis using True by simp
  next
    case False
    with d have d0: "attr h a k = VDesc i os s" by (auto simp: attr_promote split: if_splits)
    with w obtain c cl where c: "s = Some c" "cell_at h c = Some cl"
        "(a, k) \<in> set (live_entries (observers cl))"
        "\<forall>q \<in> set (live_entries (observers cl)). points_at h c q"
      unfolding wired_iff by blast
    from c(2) have "c \<noteq> ?c" by (auto simp: cell_at_def split: if_splits)
    then have c1: "cell_at ?h c = Some cl" using c(2) by (simp add: cell_at_promote)
    have "points_at ?h c q" if "q \<in> set (live_entries (observers cl))" for q
    proof -
      from that c(4) have p: "points_at h c q" by blast
      with nb have "q \<noteq> (target, tk)"
        by (auto simp: points_at_desc dest: not_bound_not_desc)
      then have "attr ?h (fst q) (snd q) = attr h (fst q) (snd q)"
        by (cases q) (auto simp: attr_promote)
      with p show ?thesis by (simp add: points_at_def)
    qed
    with c(1,3) c1 show ?thesis by blast
  qed
qed

lemma pointable_repoint: "pointable (repoint c v) = pointable v"
  by (cases v) simp_all

lemma point_to_pointable: "point_to h ob k c = Inr h1 \<Longrightarrow> pointable (attr h ob k)"
  by (cases "attr h ob k") (simp_all add: point_to_def)

lemma bind_loop_pointable:
  "bind_loop h c cv ov n noNotify es = (None, h', cs) \<Longrightarrow> n \<le> j \<Longrightarrow>
   (j, Some p) \<in> set es \<Longrightarrow> pointable (attr h (fst p) (snd p))"
proof (induction h c cv ov n noNotify es arbitrary: h' cs rule: bind_loop.induct)
  case (1 h c cv ov n noNotify)
  then show ?case by simp
next
  case (2 h c cv ov n noNotify i es)
  then show ?case by simp
next
  case (3 h c cv ov n noNotify i ob k es)
  show ?case
  proof (cases "i < n")
    case True
    with 3 show ?thesis by auto
  next
    case False
    with "3.prems" obtain h1 where pt: "point_to h ob k c = Inr h1"
      by (cases "point_to h ob k c") auto
    have r1: "repointed {(ob, k)} c h h1" using pt by (rule point_to_Inr)
    have "\<exists>cs'. bind_loop h1 c cv ov n noNotify es = (None, h', cs')"
      using "3.prems" False pt
      by (auto split: if_splits sum.splits prod.splits)
    then obtain cs' where bl: "bind_loop h1 c cv ov n noNotify es = (None, h', cs')" ..
    show ?thesis
    proof (cases "(j, Some p) = (i, Some (ob, k))")
      case True
      then show ?thesis using pt by (auto dest: point_to_pointable)
    next
      case ne: False
      with "3.prems"(3) have mem: "(j, Some p) \<in> set es" by auto
      have "pointable (attr h1 (fst p) (snd p))"
      proof (cases "cv = ov \<or> for_in_key i = VNum (int n) \<and> noNotify")
        case True
        from "3.IH"(2) [OF False pt True bl "3.prems"(2) mem] show ?thesis .
      next
        case nf: False
        from bl "3.prems" False pt nf obtain cs1 where cc: "call_changed h1 ob k = Inr cs1"
          by (cases "call_changed h1 ob k") auto
        from "3.IH"(3) [OF False pt nf cc bl "3.prems"(2) mem] show ?thesis .
      qed
      moreover have "attr h1 (fst p) (snd p) =
          (if p = (ob, k) then repoint c (attr h (fst p) (snd p)) else attr h (fst p) (snd p))"
        using r1 by (cases p) (simp add: repointed_def)
      ultimately show ?thesis by (simp add: pointable_repoint split: if_splits)
    qed
  qed
qed

lemma repoint_wired:
  assumes rp: "repointed (set (live_entries Tn)) c h3 h'"
    and cell: "cell_at h3 c = Some cl3" "observers cl3 = Tt @ Tn"
    and old: "\<forall>q \<in> set (live_entries Tt). points_at h3 c q"
    and new: "\<forall>q \<in> set (live_entries Tn). \<exists>i os s. attr h3 (fst q) (snd q) = VDesc i os s"
    and rest: "\<forall>a k i os s. attr h3 a k = VDesc i os s \<longrightarrow> (a, k) \<notin> set (live_entries Tn) \<longrightarrow>
        (s = Some c \<and> (a, k) \<in> set (live_entries Tt)) \<or>
        (\<exists>c0 cl0. s = Some c0 \<and> c0 \<noteq> c \<and> cell_at h3 c0 = Some cl0 \<and>
           (a, k) \<in> set (live_entries (observers cl0)) \<and>
           (\<forall>q \<in> set (live_entries (observers cl0)).
              q \<notin> set (live_entries Tn) \<and> points_at h3 c0 q))"
  shows "wired h' \<and> (\<forall>q \<in> set (live_entries (Tt @ Tn)). points_at h' c q) \<and>
         (\<forall>a k i os s. attr h' a k = VDesc i os s \<longrightarrow> s \<noteq> Some c \<longrightarrow>
            attr h3 a k = VDesc i os s \<and> (a, k) \<notin> set (live_entries Tn))"
proof -
  have at: "attr h' a k = (if (a, k) \<in> set (live_entries Tn) then repoint c (attr h3 a k)
      else attr h3 a k)" for a k
    using rp by (simp add: repointed_def)
  have ce: "cell_at h' c0 = cell_at h3 c0" for c0
    using rp by (simp add: repointed_def cell_at_def)
  have pc: "points_at h' c q" if "q \<in> set (live_entries (Tt @ Tn))" for q
  proof (cases "q \<in> set (live_entries Tn)")
    case True
    with new obtain i os s where "attr h3 (fst q) (snd q) = VDesc i os s" by blast
    with True at [of "fst q" "snd q"] show ?thesis by (simp add: points_at_def)
  next
    case False
    with that have "q \<in> set (live_entries Tt)" by (simp add: live_entries_append)
    with old have "points_at h3 c q" by blast
    with False at [of "fst q" "snd q"] show ?thesis by (simp add: points_at_def)
  qed
  have cc: "cell_at h' c = Some cl3" using cell ce by simp
  have ab: "attr h3 a k = VDesc i os s \<and> (a, k) \<notin> set (live_entries Tn)"
    if "attr h' a k = VDesc i os s" "s \<noteq> Some c" for a k i os s
  proof (cases "(a, k) \<in> set (live_entries Tn)")
    case True
    with new obtain i0 os0 s0 where "attr h3 a k = VDesc i0 os0 s0" by fastforce
    with True that at [of a k] show ?thesis by simp
  next
    case False
    with that at [of a k] show ?thesis by simp
  qed
  have "\<exists>c cl. s = Some c \<and> cell_at h' c = Some cl \<and>
      (a, k) \<in> set (live_entries (observers cl)) \<and>
      (\<forall>q \<in> set (live_entries (observers cl)). points_at h' c q)"
    if d: "attr h' a k = VDesc i os s" for a k i os s
  proof (cases "(a, k) \<in> set (live_entries Tn)")
    case True
    with new obtain i0 os0 s0 where "attr h3 a k = VDesc i0 os0 s0" by fastforce
    with True d at [of a k] have "s = Some c" by simp
    moreover have "(a, k) \<in> set (live_entries (observers cl3))"
      using True cell by (simp add: live_entries_append)
    ultimately show ?thesis using cc pc cell by auto
  next
    case False
    with d at [of a k] have d3: "attr h3 a k = VDesc i os s" by simp
    from rest d3 False consider
      (tgt) "s = Some c" "(a, k) \<in> set (live_entries Tt)"
      | (other) c0 cl0 where "s = Some c0" "c0 \<noteq> c" "cell_at h3 c0 = Some cl0"
          "(a, k) \<in> set (live_entries (observers cl0))"
          "\<forall>q \<in> set (live_entries (observers cl0)).
              q \<notin> set (live_entries Tn) \<and> points_at h3 c0 q"
      by blast
    then show ?thesis
    proof cases
      case tgt
      then have "(a, k) \<in> set (live_entries (observers cl3))"
        using cell by (simp add: live_entries_append)
      with tgt cc pc cell show ?thesis by auto
    next
      case other
      have "points_at h' c0 q" if "q \<in> set (live_entries (observers cl0))" for q
      proof -
        from that other(5) have "q \<notin> set (live_entries Tn)" "points_at h3 c0 q" by auto
        with at [of "fst q" "snd q"] show ?thesis by (simp add: points_at_def)
      qed
      with other ce show ?thesis by auto
    qed
  qed
  then have "wired h'" unfolding wired_iff by blast
  with pc ab show ?thesis by blast
qed

lemma wiredD:
  assumes "wired h" "attr h a k = VDesc i os s"
  obtains c cl where "s = Some c" "cell_at h c = Some cl"
    "(a, k) \<in> set (live_entries (observers cl))"
    "\<forall>q \<in> set (live_entries (observers cl)). points_at h c q"
  using assms unfolding wired_iff by blast

lemma wired_cellD:
  assumes "wired h" "attr h a k = VDesc i os (Some c)" "cell_at h c = Some cl"
  shows "(a, k) \<in> set (live_entries (observers cl))"
    and "\<forall>q \<in> set (live_entries (observers cl)). points_at h c q"
proof -
  from assms(1,2) obtain c' cl' where "Some c = Some c'" "cell_at h c' = Some cl'"
    "(a, k) \<in> set (live_entries (observers cl'))"
    "\<forall>q \<in> set (live_entries (observers cl')). points_at h c' q"
    by (rule wiredD)
  with assms(3) show "(a, k) \<in> set (live_entries (observers cl))"
    and "\<forall>q \<in> set (live_entries (observers cl)). points_at h c q"
    by simp_all
qed

lemma bindTo_wired:
  assumes w: "wired h"
    and b: "bindTo depth h this key target targetKey noNotify = (None, h', cs)"
  shows "wired h' \<and>
         (\<exists>c. points_at h' c (target, default_key targetKey key) \<and>
              points_at h' c (this, key) \<and>
              (\<forall>sc. points_at h sc (this, key) \<longrightarrow> sc \<noteq> c \<longrightarrow> (\<forall>q. \<not> points_at h' sc q)))"
proof -
  define tk where "tk = default_key targetKey key"
  define h1 where "h1 = (if \<not> isPropertyBound h target tk then promote h target tk else h)"
  have bs: "has_attr h target tk \<and>
         (\<exists>i os c cl h3 ov.
            attr h1 target tk = VDesc i os (Some c) \<and> cell_at h1 c = Some cl \<and>
            join_source depth
              (set_attr h1 target tk (VDesc i (os @ [length (observers cl)]) (Some c)))
              this key c (length (observers cl)) = Inr (h3, ov) \<and>
            run_bind_loop h3 c ov (length (observers cl)) noNotify = (None, h', cs))"
    using bindTo_success [OF b] unfolding tk_def h1_def .
  then have ha: "has_attr h target tk" ..
  from bs obtain i os c cl h3 ov where
    t1: "attr h1 target tk = VDesc i os (Some c)"
    and c1: "cell_at h1 c = Some cl"
    and js0: "join_source depth
              (set_attr h1 target tk (VDesc i (os @ [length (observers cl)]) (Some c)))
              this key c (length (observers cl)) = Inr (h3, ov)"
    and rl0: "run_bind_loop h3 c ov (length (observers cl)) noNotify = (None, h', cs)"
    by blast
  define n where "n = length (observers cl)"
  define h2 where "h2 = set_attr h1 target tk (VDesc i (os @ [n]) (Some c))"
  have js: "join_source depth h2 this key c n = Inr (h3, ov)"
    using js0 by (simp add: h2_def n_def)
  have rl: "run_bind_loop h3 c ov n noNotify = (None, h', cs)"
    using rl0 by (simp add: n_def)
  have w1: "wired h1"
    using w ha by (simp add: h1_def promote_wired)
  have sw12: "same_wiring h1 h2"
    unfolding h2_def using t1 by (rule same_wiring_set_desc)
  have w2: "wired h2" using w1 sw12 by (rule same_wiring_wired)
  have c2: "cell_at h2 c = Some cl"
    using c1 by (simp add: h2_def cell_at_set_attr)
  have tv: "target < length (objs h1)"
    using t1 by (blast dest: attr_desc_has_attr has_attr_valid)
  have t2: "attr h2 target tk = VDesc i (os @ [n]) (Some c)"
    using tv by (simp add: h2_def attr_set_attr)
  have tin: "(target, tk) \<in> set (live_entries (observers cl))"
    and told: "\<forall>q \<in> set (live_entries (observers cl)). points_at h2 c q"
    by (rule wired_cellD [OF w2 t2 c2])+
  \<comment> \<open>the source's descriptor in \<open>h\<close> is still there in \<open>h2\<close>\<close>
  have src: "points_at h2 sc (this, key)" if "points_at h sc (this, key)" for sc
  proof -
    from that obtain j js where d: "attr h this key = VDesc j js (Some sc)"
      by (auto simp: points_at_desc)
    have "points_at h1 sc (this, key)"
    proof (cases "isPropertyBound h target tk")
      case True
      then show ?thesis using that by (simp add: h1_def)
    next
      case False
      with d have "(this, key) \<noteq> (target, tk)"
        by (auto dest: not_bound_not_desc)
      then show ?thesis using that False
        by (auto simp: h1_def points_at_def attr_promote)
    qed
    then show ?thesis using sw12 by (simp add: same_wiring_points_at)
  qed
  from join_source_success [OF js]
  consider
    (bound) sos sc hu tcl scl where
      "attr h2 this key = VDesc 0 sos (Some sc)"
      "updateObserverIndexes depth h2 this key n = (None, hu)"
      "cell_at hu c = Some tcl" "cell_at hu sc = Some scl"
      "h3 = set_cell hu c (tcl\<lparr>observers := observers tcl @ observers scl\<rparr>)"
    | (plain) tcl where
      "\<not> isPropertyBound h2 this key" "cell_at h2 c = Some tcl"
      "h3 = set_cell (set_attr h2 this key (VDesc n [] None)) c
              (tcl\<lparr>observers := observers tcl @ [Some (this, key)]\<rparr>)"
    by blast
  then have "wired h' \<and>
         (\<exists>c. points_at h' c (target, tk) \<and> points_at h' c (this, key) \<and>
              (\<forall>sc. points_at h sc (this, key) \<longrightarrow> sc \<noteq> c \<longrightarrow> (\<forall>q. \<not> points_at h' sc q)))"
  proof cases
    case bound
    have swu: "same_wiring h2 hu"
      using update_same_wiring(1) [of h2 depth this key n] bound(2) by simp
    have tcl: "tcl = cl" and cu: "cell_at hu c = Some cl" and su: "cell_at h2 sc = Some scl"
      using bound(3,4) c2 swu by (simp_all add: same_wiring_cell_at)
    have sin: "(this, key) \<in> set (live_entries (observers scl))"
      and sold: "\<forall>q \<in> set (live_entries (observers scl)). points_at h2 sc q"
      by (rule wired_cellD [OF w2 bound(1) su])+
    define cl3 where "cl3 = cl\<lparr>observers := observers cl @ observers scl\<rparr>"
    have h3: "h3 = set_cell hu c cl3" using bound(5) tcl by (simp add: cl3_def)
    have cv: "c < length (cells hu)" using cu by (simp add: cell_at_def split: if_splits)
    have c3: "cell_at h3 c = Some cl3" using cv by (simp add: h3 cell_at_set_cell)
    have a3: "attr h3 a k = attr hu a k" for a k by (simp add: h3 attr_set_cell)
    have p3: "points_at h3 c0 q = points_at h2 c0 q" for c0 q
      using swu by (simp add: points_at_def a3 same_wiring_points_at [unfolded points_at_def])
    from run_bind_loop_success [OF rl] c3
    have rp: "repointed (set (live_entries (observers scl))) c h3 h'"
      by (simp add: cl3_def n_def)
    have o3: "observers cl3 = observers cl @ observers scl" by (simp add: cl3_def)
    have old: "\<forall>q \<in> set (live_entries (observers cl)). points_at h3 c q"
      using told by (simp add: p3)
    have new: "\<forall>q \<in> set (live_entries (observers scl)).
        \<exists>i os s. attr h3 (fst q) (snd q) = VDesc i os s"
    proof
      fix q assume "q \<in> set (live_entries (observers scl))"
      with sold have "points_at h3 sc q" by (simp add: p3)
      then show "\<exists>i os s. attr h3 (fst q) (snd q) = VDesc i os s"
        by (auto simp: points_at_desc)
    qed
    have rest: "\<forall>a k i os s. attr h3 a k = VDesc i os s \<longrightarrow>
        (a, k) \<notin> set (live_entries (observers scl)) \<longrightarrow>
        (s = Some c \<and> (a, k) \<in> set (live_entries (observers cl))) \<or>
        (\<exists>c0 cl0. s = Some c0 \<and> c0 \<noteq> c \<and> cell_at h3 c0 = Some cl0 \<and>
           (a, k) \<in> set (live_entries (observers cl0)) \<and>
           (\<forall>q \<in> set (live_entries (observers cl0)).
              q \<notin> set (live_entries (observers scl)) \<and> points_at h3 c0 q))"
    proof (intro allI impI)
      fix a k i os s
      assume d3: "attr h3 a k = VDesc i os s"
        and nin: "(a, k) \<notin> set (live_entries (observers scl))"
      from d3 swu obtain i0 os0 where d2: "attr h2 a k = VDesc i0 os0 s"
        by (auto simp: a3 dest: same_wiring_desc)
      from wiredD [OF w2 d2] obtain c0 cl0 where
        c0: "s = Some c0" "cell_at h2 c0 = Some cl0"
          "(a, k) \<in> set (live_entries (observers cl0))"
          "\<forall>q \<in> set (live_entries (observers cl0)). points_at h2 c0 q"
        by blast
      show "(s = Some c \<and> (a, k) \<in> set (live_entries (observers cl))) \<or>
        (\<exists>c0 cl0. s = Some c0 \<and> c0 \<noteq> c \<and> cell_at h3 c0 = Some cl0 \<and>
           (a, k) \<in> set (live_entries (observers cl0)) \<and>
           (\<forall>q \<in> set (live_entries (observers cl0)).
              q \<notin> set (live_entries (observers scl)) \<and> points_at h3 c0 q))"
      proof (cases "c0 = c")
        case True
        with c0 c2 show ?thesis by simp
      next
        case False
        have ne: "c0 \<noteq> sc" using c0(2,3) su nin by auto
        have "cell_at h3 c0 = Some cl0"
          using False c0(2) swu by (simp add: h3 cell_at_set_cell same_wiring_cell_at)
        moreover have "q \<notin> set (live_entries (observers scl)) \<and> points_at h3 c0 q"
          if "q \<in> set (live_entries (observers cl0))" for q
        proof -
          from that c0(4) have p: "points_at h2 c0 q" by blast
          have "q \<notin> set (live_entries (observers scl))"
          proof
            assume "q \<in> set (live_entries (observers scl))"
            with sold have "points_at h2 sc q" by blast
            with p ne show False by (auto simp: points_at_desc)
          qed
          with p show ?thesis by (simp add: p3)
        qed
        ultimately show ?thesis using c0(1,3) False by blast
      qed
    qed
    from repoint_wired [OF rp c3 o3 old new rest]
    have wh: "wired h'"
      and pc: "\<forall>q \<in> set (live_entries (observers cl @ observers scl)). points_at h' c q"
      and ab: "\<forall>a k i os s. attr h' a k = VDesc i os s \<longrightarrow> s \<noteq> Some c \<longrightarrow>
            attr h3 a k = VDesc i os s \<and> (a, k) \<notin> set (live_entries (observers scl))"
      by blast+
    have "points_at h' c (target, tk)" "points_at h' c (this, key)"
      using pc tin sin by (simp_all add: live_entries_append)
    moreover have "\<not> points_at h' sc' q" if s': "points_at h sc' (this, key)" "sc' \<noteq> c" for sc' q
    proof
      assume "points_at h' sc' q"
      then obtain i os where "attr h' (fst q) (snd q) = VDesc i os (Some sc')"
        by (auto simp: points_at_desc)
      with ab s'(2) have "attr h3 (fst q) (snd q) = VDesc i os (Some sc')"
        and nin: "q \<notin> set (live_entries (observers scl))"
        by (metis option.inject prod.collapse)+
      then have p2: "points_at h2 sc' q" using p3 [of sc' q] by (simp add: points_at_def)
      from src [OF s'(1)] bound(1) have "sc' = sc" by (simp add: points_at_def)
      with p2 obtain i0 os0 where "attr h2 (fst q) (snd q) = VDesc i0 os0 (Some sc)"
        by (auto simp: points_at_desc)
      from wired_cellD(1) [OF w2 this su] have "q \<in> set (live_entries (observers scl))"
        by simp
      with nin show False ..
    qed
    ultimately show ?thesis using wh by blast
  next
    case plain
    have tcl: "tcl = cl" using plain(2) c2 by simp
    define ha where "ha = set_attr h2 this key (VDesc n [] None)"
    define cl3 where "cl3 = cl\<lparr>observers := observers cl @ [Some (this, key)]\<rparr>"
    have h3: "h3 = set_cell ha c cl3" using plain(3) tcl by (simp add: ha_def cl3_def)
    have cv: "c < length (cells ha)"
      using c2 by (simp add: ha_def cells_set_attr cell_at_def split: if_splits)
    have c3: "cell_at h3 c = Some cl3" using cv by (simp add: h3 cell_at_set_cell)
    have a3: "attr h3 a k = attr ha a k" for a k by (simp add: h3 attr_set_cell)
    from run_bind_loop_success [OF rl] c3
    have rp: "repointed (set (live_entries [Some (this, key)])) c h3 h'"
      by (simp add: cl3_def n_def)
    \<comment> \<open>the loop reached the new entry, so the source object exists\<close>
    from rl c3 have bl: "bind_loop h3 c (cvalue cl3) ov n noNotify
        (zip [0..<length (observers cl3)] (observers cl3)) = (None, h', cs)"
      by (simp add: run_bind_loop_def)
    have "(n, Some (this, key)) \<in> set (zip [0..<length (observers cl3)] (observers cl3))"
      by (simp add: in_set_zip_upt cl3_def n_def)
    from bind_loop_pointable [OF bl order_refl this]
    have pa: "pointable (attr ha this key)" by (simp add: a3)
    have sv: "this < length (objs h2)"
    proof (rule ccontr)
      assume "\<not> this < length (objs h2)"
      then have "attr ha this key = VUndef"
        by (simp add: ha_def attr_set_attr) (simp add: attr_def obj_at_def)
      with pa show False by simp
    qed
    have sa: "attr ha this key = VDesc n [] None"
      using sv by (simp add: ha_def attr_set_attr)
    have oa: "attr ha a k = attr h2 a k" if "(a, k) \<noteq> (this, key)" for a k
      using that by (auto simp: ha_def attr_set_attr)
    have nd: "q \<noteq> (this, key)" if "points_at h2 c0 q" for c0 q
      using that plain(1) by (auto simp: points_at_desc dest: not_bound_not_desc)
    have o3: "observers cl3 = observers cl @ [Some (this, key)]" by (simp add: cl3_def)
    have old: "\<forall>q \<in> set (live_entries (observers cl)). points_at h3 c q"
    proof
      fix q assume "q \<in> set (live_entries (observers cl))"
      with told have p: "points_at h2 c q" by blast
      with nd have "q \<noteq> (this, key)" by blast
      with p oa [of "fst q" "snd q"] show "points_at h3 c q"
        by (simp add: points_at_def a3)
    qed
    have new: "\<forall>q \<in> set (live_entries [Some (this, key)]).
        \<exists>i os s. attr h3 (fst q) (snd q) = VDesc i os s"
      using sa by (simp add: a3)
    have rest: "\<forall>a k i os s. attr h3 a k = VDesc i os s \<longrightarrow>
        (a, k) \<notin> set (live_entries [Some (this, key)]) \<longrightarrow>
        (s = Some c \<and> (a, k) \<in> set (live_entries (observers cl))) \<or>
        (\<exists>c0 cl0. s = Some c0 \<and> c0 \<noteq> c \<and> cell_at h3 c0 = Some cl0 \<and>
           (a, k) \<in> set (live_entries (observers cl0)) \<and>
           (\<forall>q \<in> set (live_entries (observers cl0)).
              q \<notin> set (live_entries [Some (this, key)]) \<and> points_at h3 c0 q))"
    proof (intro allI impI)
      fix a k i os s
      assume d3: "attr h3 a k = VDesc i os s"
        and nin: "(a, k) \<notin> set (live_entries [Some (this, key)])"
      then have ne: "(a, k) \<noteq> (this, key)" by simp
      with d3 have d2: "attr h2 a k = VDesc i os s" by (simp add: a3 oa)
      from wiredD [OF w2 d2] obtain c0 cl0 where
        c0: "s = Some c0" "cell_at h2 c0 = Some cl0"
          "(a, k) \<in> set (live_entries (observers cl0))"
          "\<forall>q \<in> set (live_entries (observers cl0)). points_at h2 c0 q"
        by blast
      show "(s = Some c \<and> (a, k) \<in> set (live_entries (observers cl))) \<or>
        (\<exists>c0 cl0. s = Some c0 \<and> c0 \<noteq> c \<and> cell_at h3 c0 = Some cl0 \<and>
           (a, k) \<in> set (live_entries (observers cl0)) \<and>
           (\<forall>q \<in> set (live_entries (observers cl0)).
              q \<notin> set (live_entries [Some (this, key)]) \<and> points_at h3 c0 q))"
      proof (cases "c0 = c")
        case True
        with c0 c2 show ?thesis by simp
      next
        case False
        have "cell_at h3 c0 = Some cl0"
          using False c0(2) by (simp add: h3 cell_at_set_cell ha_def cell_at_set_attr)
        moreover have "q \<notin> set (live_entries [Some (this, key)]) \<and> points_at h3 c0 q"
          if "q \<in> set (live_entries (observers cl0))" for q
        proof -
          from that c0(4) have p: "points_at h2 c0 q" by blast
          with nd have "q \<noteq> (this, key)" by blast
          with p oa [of "fst q" "snd q"] show ?thesis
            by (simp add: points_at_def a3)
        qed
        ultimately show ?thesis using c0(1,3) False by blast
      qed
    qed
    from repoint_wired [OF rp c3 o3 old new rest]
    have wh: "wired h'"
      and pc: "\<forall>q \<in> set (live_entries (observers cl @ [Some (this, key)])). points_at h' c q"
      by blast+
    have "points_at h' c (target, tk)" "points_at h' c (this, key)"
      using pc tin by (simp_all add: live_entries_append)
    moreover have "\<not> points_at h sc' (this, key)" for sc'
      using src [of sc'] plain(1) by (auto simp: points_at_desc dest: not_bound_not_desc)
    ultimately show ?thesis using wh by blast
  qed
  then show ?thesis by (simp add: tk_def)
qed

lemma wired_no_descriptors:
  "(\<And>a k i os s. attr h a k \<noteq> VDesc i os s) \<Longrightarrow> wired h"
  unfolding wired_iff by blast

lemma wired_ex_plain: "wired ex_plain"
  by code_simp

subsection \<open>\<open>bindTo\<close>: one shared object per group\<close>

text \<open>
  C3, as the source has it. \<open>wired\<close> says that every descriptor of the store refers to a
  shared object that lists the descriptor's attribute among its observers, and that every
  observer of that shared object which is not \<^verbatim>\<open>null\<close> holds a descriptor referring to
  it. When \<open>bindTo\<close> returns normally from a wired store, the target and the source refer
  to one shared object \<open>c\<close>, every observer of \<open>c\<close> that is not \<^verbatim>\<open>null\<close> holds a
  descriptor referring to \<open>c\<close>, no descriptor refers any more to the shared object the
  source had before (when that was another one), and the store is wired again. A store
  without descriptors is wired, so this covers every store built by calls of \<open>bindTo\<close>
  that all returned normally.
\<close>

theorem bindTo_canonical_cell:
  assumes "wired h"
    and "bindTo depth h this key target targetKey noNotify = (None, h', cs)"
  shows "\<exists>c cl. points_at h' c (target, default_key targetKey key) \<and>
           points_at h' c (this, key) \<and>
           cell_at h' c = Some cl \<and>
           list_all (points_at h' c) (live_entries (observers cl)) \<and>
           (\<forall>sc. points_at h sc (this, key) \<longrightarrow> sc \<noteq> c \<longrightarrow> (\<forall>q. \<not> points_at h' sc q)) \<and>
           wired h'"
proof -
  from bindTo_wired [OF assms] obtain c where
    w: "wired h'" and t: "points_at h' c (target, default_key targetKey key)"
    and s: "points_at h' c (this, key)"
    and a: "\<forall>sc. points_at h sc (this, key) \<longrightarrow> sc \<noteq> c \<longrightarrow> (\<forall>q. \<not> points_at h' sc q)"
    by blast
  from s obtain i os where d: "attr h' this key = VDesc i os (Some c)"
    by (auto simp: points_at_desc)
  from wiredD [OF w d] obtain cl where "cell_at h' c = Some cl"
    "\<forall>q \<in> set (live_entries (observers cl)). points_at h' c q"
    by auto
  with w t s a show ?thesis by (auto simp: list_all_iff)
qed

theorem bindTo_canonical_cell_witness:
  "wired ex_groups \<and>
   bindTo 10 ex_groups 2 ''name'' 0 None False = (None, ex_merged, [Call 3 ''nameChanged'' []]) \<and>
   list_all (points_at ex_merged 0) [(0, ''name''), (1, ''name''), (2, ''name''), (3, ''name'')] \<and>
   points_at ex_groups 1 (2, ''name'') \<and>
   \<not> points_at ex_merged 1 (2, ''name'') \<and> \<not> points_at ex_merged 1 (3, ''name'') \<and>
   wired ex_merged"
proof -
  have w: "wired ex_groups" by code_simp
  have b: "bindTo 10 ex_groups 2 ''name'' 0 None False =
      (None, ex_merged, [Call 3 ''nameChanged'' []])"
    by code_simp
  have s: "points_at ex_groups 1 (2, ''name'')" by code_simp
  have c0: "cell_at ex_merged c = Some cl \<longleftrightarrow>
      (c = 0 \<and> cl = \<lparr>cvalue = VStr ''p'',
           observers = [Some (0, ''name''), Some (1, ''name''), Some (2, ''name''),
                        Some (3, ''name'')]\<rparr>) \<or>
      (c = 1 \<and> cl = \<lparr>cvalue = VStr ''x'', observers = [Some (2, ''name''), Some (3, ''name'')]\<rparr>)"
    for c cl
    by (auto simp: cell_at_def ex_merged_def less_Suc_eq numeral_2_eq_2)
  have p: "points_at ex_merged c (2, ''name'') \<longleftrightarrow> c = 0" for c
    by (auto simp: points_at_def attr_def obj_at_def ex_merged_def)
  from bindTo_canonical_cell [OF w b] obtain c cl where
    "points_at ex_merged c (2, ''name'')" "cell_at ex_merged c = Some cl"
    "list_all (points_at ex_merged c) (live_entries (observers cl))"
    "\<forall>sc. points_at ex_groups sc (2, ''name'') \<longrightarrow> sc \<noteq> c \<longrightarrow> (\<forall>q. \<not> points_at ex_merged sc q)"
    "wired ex_merged"
    by blast
  with p c0 [of 0] s w b show ?thesis by auto
qed

text \<open>
  C3 as stated fails. The join loop re-points an observer (line 160) and calls its
  callback (line 170) in one pass, and nothing is undone when the call throws. In
  \<open>ex_chain1\<close> the third object observes the second. Binding the second to the first
  concatenates the tables, re-points the second, and throws on its \<open>nameChanged\<close>; the
  third is never re-pointed. The next \<open>bindTo\<close> on the same target returns normally and
  skips the positions below its \<^verbatim>\<open>targetObserversLength\<close>: the resulting table of
  shared object 1 lists the third object's \<open>name\<close>, whose descriptor still refers to the
  abandoned shared object 0.
\<close>

theorem bindTo_strands_entry:
  "bindTo 10 ex_chain0 2 ''name'' 1 None False = (None, ex_chain1, []) \<and>
   bindTo 10 ex_chain1 1 ''name'' 0 None False = (Some TypeError, ex_aborted, []) \<and>
   bindTo 10 ex_aborted 3 ''name'' 0 None False = (None, ex_stranded, []) \<and>
   attr ex_stranded 0 ''name'' = VDesc 0 [1, 3] (Some 1) \<and>
   cell_at ex_stranded 1 =
     Some \<lparr>cvalue = VStr ''P'',
            observers = [Some (0, ''name''), Some (1, ''name''), Some (2, ''name''),
                         Some (3, ''name'')]\<rparr> \<and>
   attr ex_stranded 2 ''name'' = VDesc 2 [] (Some 0)"
  by code_simp

subsection \<open>The index update on a well-formed table\<close>

text \<open>
  When every observer that is not \<^verbatim>\<open>null\<close>, other than the first, is listed exactly once
  among the \<^verbatim>\<open>__observerIndexes\<close> of the observers, and indices ascend, the update
  started at the first position visits every such observer exactly once (\<open>walk_forest\<close>),
  and it adds the offset to the \<^verbatim>\<open>__myIndex\<close> and to every \<^verbatim>\<open>__observerIndexes\<close> entry
  of each observer it visits (\<open>update_shifts\<close>), given room for as many nested calls as
  the table is long. An index beyond the table makes it throw.
\<close>

lemma walk_members:
  "x \<in> set (walk T ch p) \<Longrightarrow> p \<le> x \<and> (x = p \<or> (x < length T \<and> T ! x \<noteq> None))"
proof (induction T ch p arbitrary: x rule: walk.induct)
  case (1 T ch p)
  from "1.prems" have "x = p \<or> (\<exists>y \<in> set (filter (\<lambda>x. p < x \<and> x < length T \<and> T ! x \<noteq> None) (ch p)).
      x \<in> set (walk T ch y))"
    by (subst (asm) walk.simps) auto
  then show ?case
  proof
    assume "x = p" then show ?thesis by simp
  next
    assume "\<exists>y \<in> set (filter (\<lambda>x. p < x \<and> x < length T \<and> T ! x \<noteq> None) (ch p)).
      x \<in> set (walk T ch y)"
    then obtain y where y: "y \<in> set (filter (\<lambda>x. p < x \<and> x < length T \<and> T ! x \<noteq> None) (ch p))"
      "x \<in> set (walk T ch y)" by blast
    from "1.IH" [OF y] y(1) show ?thesis by auto
  qed
qed

lemma sum_list_indicator:
  "sum_list (map (\<lambda>v. if v = a then 1 else 0) xs) = count_list xs a"
  by (induction xs) auto

lemma count_list_filter:
  "count_list (filter P xs) x = (if P x then count_list xs x else 0)"
  by (induction xs) auto

lemma sum_list_map_concat:
  "sum_list (map f (concat xss)) = sum_list (map (\<lambda>xs. sum_list (map f xs)) xss)"
  for f :: "'a \<Rightarrow> nat"
  by (induction xss) auto

lemma walk_count:
  "count_list (walk T ch p) j =
     (if j = p then 1 else 0) +
     sum_list (map (\<lambda>v. count_list
        (filter (\<lambda>x. v < x \<and> x < length T \<and> T ! x \<noteq> None) (ch v)) j) (walk T ch p))"
proof (induction T ch p rule: walk.induct)
  case (1 T ch p)
  let ?K = "\<lambda>v. filter (\<lambda>x. v < x \<and> x < length T \<and> T ! x \<noteq> None) (ch v)"
  let ?c = "\<lambda>v. count_list (?K v) j"
  have w: "walk T ch p = p # concat (map (walk T ch) (?K p))"
    by (subst walk.simps) simp
  have ih: "count_list (walk T ch x) j =
      (if j = x then 1 else 0) + sum_list (map ?c (walk T ch x))" if "x \<in> set (?K p)" for x
    using "1.IH" [OF that] .
  have "sum_list (map (\<lambda>x. count_list (walk T ch x) j) (?K p)) =
      sum_list (map (\<lambda>x. (if j = x then 1 else 0) + sum_list (map ?c (walk T ch x))) (?K p))"
    using ih by (intro arg_cong [where f = sum_list] map_cong) auto
  also have "\<dots> = sum_list (map (\<lambda>x. if x = j then 1 else 0) (?K p)) +
      sum_list (map (\<lambda>x. sum_list (map ?c (walk T ch x))) (?K p))"
    by (simp add: sum_list_addf eq_commute)
  also have "\<dots> = ?c p + sum_list (map ?c (concat (map (walk T ch) (?K p))))"
    by (simp add: sum_list_indicator sum_list_map_concat comp_def)
  finally have eq: "sum_list (map (\<lambda>x. count_list (walk T ch x) j) (?K p)) =
      ?c p + sum_list (map ?c (concat (map (walk T ch) (?K p))))" .
  have l: "count_list (walk T ch p) j =
      (if j = p then 1 else 0) + sum_list (map (\<lambda>x. count_list (walk T ch x) j) (?K p))"
    by (subst w) (simp add: count_list_concat comp_def)
  have r: "sum_list (map ?c (walk T ch p)) =
      ?c p + sum_list (map ?c (concat (map (walk T ch) (?K p))))"
    by (subst w) simp
  show ?case
    unfolding l r eq ..
qed

lemma count_one_distinct: "(\<forall>x \<in> set xs. count_list xs x = 1) \<Longrightarrow> distinct xs"
proof (induction xs)
  case Nil
  then show ?case by simp
next
  case (Cons a xs)
  from Cons.prems have a: "count_list xs a = 0" by simp
  then have na: "a \<notin> set xs" by (simp add: count_list_0_iff)
  have "\<forall>x \<in> set xs. count_list xs x = 1"
  proof
    fix x assume x: "x \<in> set xs"
    with na have "x \<noteq> a" by blast
    with Cons.prems x show "count_list xs x = 1" by auto
  qed
  with Cons.IH na show ?case by simp
qed

lemma walk_forest:
  fixes T :: "'a option list" and ch :: "nat \<Rightarrow> nat list"
  assumes root: "0 < length T" "T ! 0 \<noteq> None"
    and order: "\<forall>v<length T. T ! v \<noteq> None \<longrightarrow> (\<forall>x \<in> set (ch v). v < x)"
    and forest: "\<forall>j. 1 \<le> j \<and> j < length T \<and> T ! j \<noteq> None \<longrightarrow>
        count_list (concat (map (\<lambda>v. if T ! v = None then [] else ch v) [0..<length T])) j = 1"
  shows "distinct (walk T ch 0)"
    and "set (walk T ch 0) = {v. v < length T \<and> T ! v \<noteq> None}"
proof -
  let ?V = "walk T ch 0"
  let ?m = "length T"
  let ?K = "\<lambda>v. filter (\<lambda>x. v < x \<and> x < ?m \<and> T ! x \<noteq> None) (ch v)"
  have live: "v < ?m \<and> T ! v \<noteq> None" if "v \<in> set ?V" for v
    using walk_members [OF that] root by auto
  have cnt: "count_list ?V x = 1" if "x < ?m" "T ! x \<noteq> None" for x
    using that
  proof (induction x rule: less_induct)
    case (less x)
    show ?case
    proof (cases "x = 0")
      case True
      have "count_list (?K v) 0 = 0" for v
        by (simp add: count_list_filter)
      then have "sum_list (map (\<lambda>v. count_list (?K v) 0) ?V) = 0"
        by simp
      with walk_count [of T ch 0 0] True show ?thesis by simp
    next
      case False
      let ?f = "\<lambda>v. count_list (if T ! v = None then [] else ch v) x"
      from forest less.prems False
      have "count_list (concat (map (\<lambda>v. if T ! v = None then [] else ch v) [0..<?m])) x = 1"
        by simp
      then have "sum ?f {0..<?m} = 1"
        by (simp add: count_list_concat comp_def interv_sum_list_conv_sum_set_nat)
      then have "\<exists>a \<in> {0..<?m}. ?f a = 1 \<and> (\<forall>b \<in> {0..<?m}. a \<noteq> b \<longrightarrow> ?f b = 0)"
        by (subst (asm) sum_eq_1_iff) simp_all
      then obtain v0 where v0: "v0 \<in> {0..<?m}" "?f v0 = 1"
        "\<forall>b \<in> {0..<?m}. v0 \<noteq> b \<longrightarrow> ?f b = 0"
        by blast
      from v0(2) have l0: "T ! v0 \<noteq> None" and c0: "count_list (ch v0) x = 1"
        by (auto split: if_splits)
      from c0 have "x \<in> set (ch v0)"
        by (metis count_list_0_iff zero_neq_one)
      with order v0(1) l0 have lt: "v0 < x" by auto
      have kc: "count_list (?K v) x = (if v = v0 then 1 else 0)" if "v \<in> set ?V" for v
      proof (cases "v = v0")
        case True
        with c0 lt less.prems show ?thesis by (simp add: count_list_filter)
      next
        case ne: False
        from live [OF that] have lv: "v < ?m" "T ! v \<noteq> None" by auto
        with v0(3) ne have "count_list (ch v) x = 0" by auto
        with ne show ?thesis by (simp add: count_list_filter)
      qed
      have "sum_list (map (\<lambda>v. count_list (?K v) x) ?V) =
          sum_list (map (\<lambda>v. if v = v0 then 1 else 0) ?V)"
        using kc by (intro arg_cong [where f = sum_list] map_cong) auto
      also have "\<dots> = count_list ?V v0" by (rule sum_list_indicator)
      also have "\<dots> = 1" using less.IH [OF lt] v0(1) l0 by simp
      finally show ?thesis
        using walk_count [of T ch 0 x] False by simp
    qed
  qed
  show "distinct ?V"
    using cnt live by (intro count_one_distinct) auto
  show "set ?V = {v. v < ?m \<and> T ! v \<noteq> None}"
  proof
    show "set ?V \<subseteq> {v. v < ?m \<and> T ! v \<noteq> None}" using live by blast
    show "{v. v < ?m \<and> T ! v \<noteq> None} \<subseteq> set ?V"
    proof
      fix x assume "x \<in> {v. v < ?m \<and> T ! v \<noteq> None}"
      then have "count_list ?V x = 1" using cnt by simp
      then show "x \<in> set ?V" by (metis count_list_0_iff zero_neq_one)
    qed
  qed
qed

lemma attr_set_desc:
  "attr h a k = VDesc i os s \<Longrightarrow>
   attr (set_attr h a k v) a' k' = (if a' = a \<and> k' = k then v else attr h a' k')"
  by (frule attr_desc_has_attr, drule has_attr_valid) (simp add: attr_set_attr)

lemma observer_at_desc:
  "attr h a k = VDesc i os (Some c) \<Longrightarrow> cell_at h c = Some cl \<Longrightarrow> j < length os \<Longrightarrow>
   observer_at h a k j =
     (if length (observers cl) \<le> os ! j then Inl TypeError else Inr (observers cl ! (os ! j)))"
  by (simp add: observer_at_def)

lemma bump_index_desc:
  "attr h a k = VDesc i os s \<Longrightarrow>
   bump_index h a k j off = Inr (set_attr h a k (VDesc i (os[j := os ! j + off]) s))"
  by (simp add: bump_index_def)

lemma bump_self_desc:
  "attr h a k = VDesc i os s \<Longrightarrow>
   bump_self h a k off = Inr (set_attr h a k (VDesc (i + off) os s), length os)"
  by (simp add: bump_self_def)

lemma fresh_append: "fresh g T ch sc (V @ W) \<longleftrightarrow> fresh g T ch sc V \<and> fresh g T ch sc W"
  by (auto simp: fresh_def)

lemma fresh_inj:
  assumes "fresh g T ch sc V" "v \<in> set V" "w \<in> set V" "T ! v = T ! w"
  shows "v = w"
proof -
  from assms(1,2) obtain a k where v: "T ! v = Some (a, k)" "attr g a k = VDesc v (ch v) (Some sc)"
    unfolding fresh_def by blast
  from assms(1,3) obtain a' k' where w: "T ! w = Some (a', k')"
    "attr g a' k' = VDesc w (ch w) (Some sc)"
    unfolding fresh_def by blast
  from v w assms(4) show ?thesis by simp
qed

lemma fresh_cong:
  "fresh g T ch sc V \<Longrightarrow>
   (\<And>v a k. v \<in> set V \<Longrightarrow> T ! v = Some (a, k) \<Longrightarrow> attr g' a k = attr g a k) \<Longrightarrow>
   fresh g' T ch sc V"
  by (fastforce simp: fresh_def)

lemma walk_unfold:
  "walk T ch p =
     p # concat (map (walk T ch) (filter (\<lambda>x. p < x \<and> x < length T \<and> T ! x \<noteq> None) (ch p)))"
  by (subst walk.simps) simp

lemma walk_self: "p \<in> set (walk T ch p)"
  by (subst walk_unfold) simp

lemma in_range_append: "in_range T ch (V @ W) \<longleftrightarrow> in_range T ch V \<and> in_range T ch W"
  by (auto simp: in_range_def)

lemma ascending_append: "ascending ch (V @ W) \<longleftrightarrow> ascending ch V \<and> ascending ch W"
  by (auto simp: ascending_def)

lemma cell_at_cells: "cells g' = cells g \<Longrightarrow> cell_at g' c = cell_at g c"
  by (simp add: cell_at_def)

lemma update_loop_shifts:
  fixes T :: "(addr \<times> string) option list"
  defines "P \<equiv> \<lambda>p x. p < x \<and> x < length T \<and> T ! x \<noteq> None"
  assumes child: "\<And>x g qa qk. x \<in> set (filter (P p) (ch p)) \<Longrightarrow> cell_at g sc = Some cl \<Longrightarrow>
        T ! x = Some (qa, qk) \<Longrightarrow> distinct (walk T ch x) \<Longrightarrow>
        fresh g T ch sc (walk T ch x) \<Longrightarrow> ascending ch (walk T ch x) \<Longrightarrow>
        (if in_range T ch (walk T ch x)
         then \<exists>g'. updateObserverIndexes d g qa qk off = (None, g') \<and>
                shifted T ch sc off (walk T ch x) g g'
         else fst (updateObserverIndexes d g qa qk off) \<noteq> None)"
    and tab: "observers cl = T"
    and ent: "T ! p = Some (a, k)"
    and ord: "\<forall>x \<in> set (ch p). p < x"
    and split: "ch p = pre @ xs"
    and W: "W = concat (map (walk T ch) (filter (P p) xs))"
    and dist: "distinct (p # W)"
    and inj: "\<forall>v \<in> set (p # W). \<forall>w \<in> set (p # W). T ! v = T ! w \<longrightarrow> v = w"
    and asc: "ascending ch W"
    and cell: "cell_at gt sc = Some cl"
    and cur: "attr gt a k = VDesc (p + off) (map (\<lambda>x. x + off) pre @ xs) (Some sc)"
    and fr: "fresh gt T ch sc W"
  shows "if (\<forall>x \<in> set xs. x < length T) \<and> in_range T ch W
         then \<exists>g'. update_loop d gt a k off [length pre..<length pre + length xs] = (None, g') \<and>
                attr g' a k = VDesc (p + off) (map (\<lambda>x. x + off) (ch p)) (Some sc) \<and>
                (\<forall>v \<in> set W. \<forall>qa qk. T ! v = Some (qa, qk) \<longrightarrow>
                   attr g' qa qk = shift_desc off ch sc v) \<and>
                (\<forall>a' k'. (a', k') \<noteq> (a, k) \<and> (\<forall>v \<in> set W. T ! v \<noteq> Some (a', k')) \<longrightarrow>
                   attr g' a' k' = attr gt a' k') \<and>
                cells g' = cells gt
         else fst (update_loop d gt a k off [length pre..<length pre + length xs]) \<noteq> None"
  using split W dist inj asc cell cur fr
proof (induction xs arbitrary: pre W gt)
  case Nil
  then show ?case by (simp add: in_range_def)
next
  case (Cons x xs)
  let ?n = "length pre"
  let ?os = "map (\<lambda>x. x + off) pre @ x # xs"
  define rest where "rest = [length (pre @ [x])..<length (pre @ [x]) + length xs]"
  have idx: "[?n..<?n + length (x # xs)] = ?n # rest"
    unfolding rest_def by (subst upt_conv_Cons) simp_all
  have osn: "?n < length ?os" "?os ! ?n = x"
    using nth_append_length [of "map (\<lambda>x. x + off) pre" x xs] by simp_all
  have upd_os: "?os[?n := ?os ! ?n + off] = map (\<lambda>x. x + off) (pre @ [x]) @ xs"
    using osn(2) list_update_length [of "map (\<lambda>x. x + off) pre" x xs "x + off"] by simp
  have sp: "ch p = (pre @ [x]) @ xs" using Cons.prems(1) by simp
  have xin: "x \<in> set (ch p)" using Cons.prems(1) by simp
  have pnW: "p \<notin> set W" using Cons.prems(3) by simp
  have not_p: "(qa, qk) \<noteq> (a, k)" if "v \<in> set W" "T ! v = Some (qa, qk)" for v qa qk
  proof
    assume "(qa, qk) = (a, k)"
    with that ent have "T ! v = T ! p" by simp
    with Cons.prems(4) that(1) have "v = p" by simp
    with that(1) pnW show False by simp
  qed
  note cur = Cons.prems(7)
  note cell = Cons.prems(6)
  have obs: "observer_at gt a k ?n =
      (if length T \<le> x then Inl TypeError else Inr (T ! x))"
    using observer_at_desc [OF cur cell osn(1)] osn(2) tab by simp
  show ?case
  proof (cases "length T \<le> x")
    case True
    then show ?thesis unfolding idx by (simp add: obs)
  next
    case False
    then have xr: "x < length T" by simp
    show ?thesis
    proof (cases "T ! x")
      case None
      then have f0: "filter (P p) (x # xs) = filter (P p) xs" by (simp add: P_def)
      define g2 where "g2 = set_attr gt a k (VDesc (p + off) (map (\<lambda>x. x + off) (pre @ [x]) @ xs) (Some sc))"
      have bi: "bump_index gt a k ?n off = Inr g2"
        using bump_index_desc [OF cur, of ?n off] upd_os by (simp add: g2_def)
      have a2: "attr g2 a' k' = (if a' = a \<and> k' = k
          then VDesc (p + off) (map (\<lambda>x. x + off) (pre @ [x]) @ xs) (Some sc)
          else attr gt a' k')" for a' k'
        unfolding g2_def by (rule attr_set_desc [OF cur])
      have W2: "W = concat (map (walk T ch) (filter (P p) xs))"
        using Cons.prems(2) f0 by simp
      have fr2: "fresh g2 T ch sc W"
        using Cons.prems(8)
      proof (rule fresh_cong)
        fix v qa qk assume "v \<in> set W" "T ! v = Some (qa, qk)"
        then have "(qa, qk) \<noteq> (a, k)" by (rule not_p)
        then show "attr g2 qa qk = attr gt qa qk" by (auto simp: a2)
      qed
      have c2: "cell_at g2 sc = Some cl" using cell by (simp add: g2_def cell_at_set_attr)
      have cur2: "attr g2 a k = VDesc (p + off) (map (\<lambda>x. x + off) (pre @ [x]) @ xs) (Some sc)"
        by (simp add: a2)
      have step: "update_loop d gt a k off [?n..<?n + length (x # xs)] =
          update_loop d g2 a k off rest"
        unfolding idx using obs False None bi by simp
      from Cons.IH [OF sp W2 Cons.prems(3,4,5) c2 cur2 fr2, folded rest_def]
      have ih: "if (\<forall>x \<in> set xs. x < length T) \<and> in_range T ch W
         then \<exists>g'. update_loop d g2 a k off rest = (None, g') \<and>
                attr g' a k = VDesc (p + off) (map (\<lambda>x. x + off) (ch p)) (Some sc) \<and>
                (\<forall>v \<in> set W. \<forall>qa qk. T ! v = Some (qa, qk) \<longrightarrow>
                   attr g' qa qk = shift_desc off ch sc v) \<and>
                (\<forall>a' k'. (a', k') \<noteq> (a, k) \<and> (\<forall>v \<in> set W. T ! v \<noteq> Some (a', k')) \<longrightarrow>
                   attr g' a' k' = attr g2 a' k') \<and>
                cells g' = cells g2
         else fst (update_loop d g2 a k off rest) \<noteq> None" .
      have cg: "cells g2 = cells gt" by (simp add: g2_def cells_set_attr)
      show ?thesis
      proof (cases "(\<forall>x \<in> set xs. x < length T) \<and> in_range T ch W")
        case True
        with ih obtain g' where g': "update_loop d g2 a k off rest = (None, g')"
          "attr g' a k = VDesc (p + off) (map (\<lambda>x. x + off) (ch p)) (Some sc)"
          "\<forall>v \<in> set W. \<forall>qa qk. T ! v = Some (qa, qk) \<longrightarrow>
                   attr g' qa qk = shift_desc off ch sc v"
          "\<forall>a' k'. (a', k') \<noteq> (a, k) \<and> (\<forall>v \<in> set W. T ! v \<noteq> Some (a', k')) \<longrightarrow>
                   attr g' a' k' = attr g2 a' k'"
          "cells g' = cells g2"
          by auto
        have p2: "attr g' a' k' = attr gt a' k'"
          if "(a', k') \<noteq> (a, k)" "\<forall>v \<in> set W. T ! v \<noteq> Some (a', k')" for a' k'
          using g'(4) that by (auto simp: a2)
        have C: "(\<forall>x \<in> set (x # xs). x < length T) \<and> in_range T ch W"
          using True xr by simp
        have R: "update_loop d gt a k off [?n..<?n + length (x # xs)] = (None, g') \<and>
              attr g' a k = VDesc (p + off) (map (\<lambda>x. x + off) (ch p)) (Some sc) \<and>
              (\<forall>v \<in> set W. \<forall>qa qk. T ! v = Some (qa, qk) \<longrightarrow>
                 attr g' qa qk = shift_desc off ch sc v) \<and>
              (\<forall>a' k'. (a', k') \<noteq> (a, k) \<and> (\<forall>v \<in> set W. T ! v \<noteq> Some (a', k')) \<longrightarrow>
                 attr g' a' k' = attr gt a' k') \<and>
              cells g' = cells gt"
        proof (intro conjI allI impI)
          show "update_loop d gt a k off [?n..<?n + length (x # xs)] = (None, g')"
            unfolding step by (rule g'(1))
          show "attr g' a k = VDesc (p + off) (map (\<lambda>x. x + off) (ch p)) (Some sc)"
            by (rule g'(2))
          show "\<forall>v \<in> set W. \<forall>qa qk. T ! v = Some (qa, qk) \<longrightarrow>
                 attr g' qa qk = shift_desc off ch sc v"
            by (rule g'(3))
          show "attr g' a' k' = attr gt a' k'"
            if "(a', k') \<noteq> (a, k) \<and> (\<forall>v \<in> set W. T ! v \<noteq> Some (a', k'))" for a' k'
            using that p2 [of a' k'] by simp
          show "cells g' = cells gt" using g'(5) cg by simp
        qed
        show ?thesis
          unfolding if_P [OF C] by (rule exI [of _ g']) (rule R)
      next
        case False
        with ih have f: "fst (update_loop d g2 a k off rest) \<noteq> None" by simp
        from False have nc: "\<not> ((\<forall>x \<in> set (x # xs). x < length T) \<and> in_range T ch W)"
          by simp
        show ?thesis unfolding step if_not_P [OF nc] by (rule f)
      qed
    next
      case (Some q)
      obtain qa qk where q: "q = (qa, qk)" by (cases q)
      have tx: "T ! x = Some (qa, qk)" using Some q by simp
      have px: "P p x" using ord xin xr tx by (simp add: P_def)
      define W' where "W' = concat (map (walk T ch) (filter (P p) xs))"
      have Weq: "W = walk T ch x @ W'"
        using Cons.prems(2) px by (simp add: W'_def)
      have xK: "x \<in> set (filter (P p) (ch p))" using xin px by simp
      have dx: "distinct (walk T ch x)" using Cons.prems(3) Weq by simp
      have frx: "fresh gt T ch sc (walk T ch x)" and frW': "fresh gt T ch sc W'"
        using Cons.prems(8) Weq by (simp_all add: fresh_append)
      have ax: "ascending ch (walk T ch x)" and aW': "ascending ch W'"
        using Cons.prems(5) Weq by (simp_all add: ascending_append)
      note ch = child [OF xK cell tx dx frx ax]
      show ?thesis
      proof (cases "in_range T ch (walk T ch x)")
        case False
        with ch have "fst (updateObserverIndexes d gt qa qk off) \<noteq> None" by simp
        then have f: "fst (update_loop d gt a k off [?n..<?n + length (x # xs)]) \<noteq> None"
          unfolding idx using obs xr tx
          by (cases "updateObserverIndexes d gt qa qk off")
             (auto split: option.splits)
        from False have nc: "\<not> ((\<forall>x \<in> set (x # xs). x < length T) \<and> in_range T ch W)"
          using Weq by (auto simp: in_range_append)
        show ?thesis unfolding if_not_P [OF nc] by (rule f)
      next
        case True
        with ch obtain g1 where g1: "updateObserverIndexes d gt qa qk off = (None, g1)"
          "shifted T ch sc off (walk T ch x) gt g1"
          by auto
        have g1a: "attr g1 a k = attr gt a k"
        proof -
          have "\<forall>v \<in> set (walk T ch x). T ! v \<noteq> Some (a, k)"
            using not_p Weq by fastforce
          with g1(2) show ?thesis by (simp add: shifted_def)
        qed
        have cur1: "attr g1 a k = VDesc (p + off) ?os (Some sc)" using g1a cur by simp
        define g2 where "g2 = set_attr g1 a k (VDesc (p + off) (map (\<lambda>x. x + off) (pre @ [x]) @ xs) (Some sc))"
        have bi: "bump_index g1 a k ?n off = Inr g2"
          using bump_index_desc [OF cur1, of ?n off] upd_os by (simp add: g2_def)
        have a2: "attr g2 a' k' = (if a' = a \<and> k' = k
            then VDesc (p + off) (map (\<lambda>x. x + off) (pre @ [x]) @ xs) (Some sc)
            else attr g1 a' k')" for a' k'
          unfolding g2_def by (rule attr_set_desc [OF cur1])
        have cg1: "cells g1 = cells gt" using g1(2) by (simp add: shifted_def)
        have cg: "cells g2 = cells gt" using cg1 by (simp add: g2_def cells_set_attr)
        have c2: "cell_at g2 sc = Some cl" using cell cell_at_cells [OF cg] by simp
        have cur2: "attr g2 a k = VDesc (p + off) (map (\<lambda>x. x + off) (pre @ [x]) @ xs) (Some sc)"
          by (simp add: a2)
        have disj: "T ! v \<noteq> Some (b, kb)"
          if "v \<in> set (walk T ch x)" "w \<in> set W'" "T ! w = Some (b, kb)" for v w b kb
        proof
          assume "T ! v = Some (b, kb)"
          with that have "T ! v = T ! w" by simp
          moreover have "v \<in> set (p # W)" "w \<in> set (p # W)" using that Weq by simp_all
          ultimately have "v = w" using Cons.prems(4) by blast
          with that(1,2) Cons.prems(3) Weq show False by auto
        qed
        have fr2: "fresh g2 T ch sc W'"
          using frW'
        proof (rule fresh_cong)
          fix v b kb assume v: "v \<in> set W'" "T ! v = Some (b, kb)"
          then have "(b, kb) \<noteq> (a, k)" using not_p [of v b kb] Weq by simp
          moreover have "\<forall>u \<in> set (walk T ch x). T ! u \<noteq> Some (b, kb)"
            using disj v by blast
          ultimately show "attr g2 b kb = attr gt b kb"
            using g1(2) by (auto simp: a2 shifted_def)
        qed
        have d2: "distinct (p # W')" using Cons.prems(3) Weq by simp
        have i2: "\<forall>v \<in> set (p # W'). \<forall>w \<in> set (p # W'). T ! v = T ! w \<longrightarrow> v = w"
          using Cons.prems(4) Weq by simp
        have step: "update_loop d gt a k off [?n..<?n + length (x # xs)] =
            update_loop d g2 a k off rest"
          unfolding idx using obs xr tx g1(1) bi by simp
        from Cons.IH [OF sp W'_def d2 i2 aW' c2 cur2 fr2, folded rest_def]
        have ih: "if (\<forall>x \<in> set xs. x < length T) \<and> in_range T ch W'
           then \<exists>g'. update_loop d g2 a k off rest = (None, g') \<and>
                  attr g' a k = VDesc (p + off) (map (\<lambda>x. x + off) (ch p)) (Some sc) \<and>
                  (\<forall>v \<in> set W'. \<forall>qa qk. T ! v = Some (qa, qk) \<longrightarrow>
                     attr g' qa qk = shift_desc off ch sc v) \<and>
                  (\<forall>a' k'. (a', k') \<noteq> (a, k) \<and> (\<forall>v \<in> set W'. T ! v \<noteq> Some (a', k')) \<longrightarrow>
                     attr g' a' k' = attr g2 a' k') \<and>
                  cells g' = cells g2
           else fst (update_loop d g2 a k off rest) \<noteq> None" .
        show ?thesis
        proof (cases "(\<forall>x \<in> set xs. x < length T) \<and> in_range T ch W'")
          case ok: True
          with ih obtain g' where g': "update_loop d g2 a k off rest = (None, g')"
            "attr g' a k = VDesc (p + off) (map (\<lambda>x. x + off) (ch p)) (Some sc)"
            "\<forall>v \<in> set W'. \<forall>qa qk. T ! v = Some (qa, qk) \<longrightarrow>
                     attr g' qa qk = shift_desc off ch sc v"
            "\<forall>a' k'. (a', k') \<noteq> (a, k) \<and> (\<forall>v \<in> set W'. T ! v \<noteq> Some (a', k')) \<longrightarrow>
                     attr g' a' k' = attr g2 a' k'"
            "cells g' = cells g2"
            by auto
          have p1: "attr g' b kb = shift_desc off ch sc v"
            if "v \<in> set W" "T ! v = Some (b, kb)" for v b kb
          proof (cases "v \<in> set W'")
            case True
            with g'(3) that show ?thesis by blast
          next
            case nW: False
            with that Weq have vx: "v \<in> set (walk T ch x)" by simp
            have "(b, kb) \<noteq> (a, k)" using not_p that by blast
            moreover have "\<forall>w \<in> set W'. T ! w \<noteq> Some (b, kb)"
              using disj [OF vx] that(2) by (metis)
            ultimately have "attr g' b kb = attr g2 b kb" using g'(4) by blast
            also have "\<dots> = attr g1 b kb" using \<open>(b, kb) \<noteq> (a, k)\<close> by (auto simp: a2)
            also have "\<dots> = shift_desc off ch sc v"
              using g1(2) vx that(2) by (simp add: shifted_def)
            finally show ?thesis .
          qed
          have p2: "attr g' a' k' = attr gt a' k'"
            if "(a', k') \<noteq> (a, k)" "\<forall>v \<in> set W. T ! v \<noteq> Some (a', k')" for a' k'
          proof -
            have "attr g' a' k' = attr g2 a' k'" using g'(4) that Weq by simp
            also have "\<dots> = attr g1 a' k'" using that(1) by (auto simp: a2)
            also have "\<dots> = attr gt a' k'" using g1(2) that(2) Weq by (simp add: shifted_def)
            finally show ?thesis .
          qed
          have C: "(\<forall>x \<in> set (x # xs). x < length T) \<and> in_range T ch W"
            using ok True xr Weq by (simp add: in_range_append)
          have R: "update_loop d gt a k off [?n..<?n + length (x # xs)] = (None, g') \<and>
                attr g' a k = VDesc (p + off) (map (\<lambda>x. x + off) (ch p)) (Some sc) \<and>
                (\<forall>v \<in> set W. \<forall>qa qk. T ! v = Some (qa, qk) \<longrightarrow>
                   attr g' qa qk = shift_desc off ch sc v) \<and>
                (\<forall>a' k'. (a', k') \<noteq> (a, k) \<and> (\<forall>v \<in> set W. T ! v \<noteq> Some (a', k')) \<longrightarrow>
                   attr g' a' k' = attr gt a' k') \<and>
                cells g' = cells gt"
          proof (intro conjI allI impI)
            show "update_loop d gt a k off [?n..<?n + length (x # xs)] = (None, g')"
              unfolding step by (rule g'(1))
            show "attr g' a k = VDesc (p + off) (map (\<lambda>x. x + off) (ch p)) (Some sc)"
              by (rule g'(2))
            show "\<forall>v \<in> set W. \<forall>qa qk. T ! v = Some (qa, qk) \<longrightarrow>
                   attr g' qa qk = shift_desc off ch sc v"
              using p1 by blast
            show "attr g' a' k' = attr gt a' k'"
              if "(a', k') \<noteq> (a, k) \<and> (\<forall>v \<in> set W. T ! v \<noteq> Some (a', k'))" for a' k'
              using that p2 [of a' k'] by simp
            show "cells g' = cells gt" using g'(5) cg by simp
          qed
          show ?thesis
            unfolding if_P [OF C] by (rule exI [of _ g']) (rule R)
        next
          case False
          with ih have f: "fst (update_loop d g2 a k off rest) \<noteq> None" by simp
          from False have nc: "\<not> ((\<forall>x \<in> set (x # xs). x < length T) \<and> in_range T ch W)"
            using Weq by (auto simp: in_range_append)
          show ?thesis unfolding step if_not_P [OF nc] by (rule f)
        qed
      qed
    qed
  qed
qed

lemma update_shifts:
  assumes "cell_at g sc = Some cl" and "observers cl = T"
    and "T ! p = Some (a, k)" and "p < length T"
    and "distinct (walk T ch p)"
    and "fresh g T ch sc (walk T ch p)"
    and "ascending ch (walk T ch p)"
    and "length T - p \<le> d"
  shows "if in_range T ch (walk T ch p)
         then \<exists>g'. updateObserverIndexes d g a k off = (None, g') \<and>
                shifted T ch sc off (walk T ch p) g g'
         else fst (updateObserverIndexes d g a k off) \<noteq> None"
  using assms
proof (induction T ch p arbitrary: g a k d rule: walk.induct)
  case (1 T ch p)
  let ?K = "filter (\<lambda>x. p < x \<and> x < length T \<and> T ! x \<noteq> None) (ch p)"
  define W where "W = concat (map (walk T ch) ?K)"
  have V: "walk T ch p = p # W" unfolding W_def by (rule walk_unfold)
  note cell = "1.prems"(1) and tab = "1.prems"(2) and ent = "1.prems"(3) and pv = "1.prems"(4)
  note dist = "1.prems"(5) and fr = "1.prems"(6) and asc = "1.prems"(7) and fuel = "1.prems"(8)
  from fuel pv obtain d' where d: "d = Suc d'" by (cases d) auto
  have cur: "attr g a k = VDesc p (ch p) (Some sc)"
    using fr ent V by (auto simp: fresh_def)
  define g1 where "g1 = set_attr g a k (VDesc (p + off) (ch p) (Some sc))"
  have a1: "attr g1 a' k' = (if a' = a \<and> k' = k then VDesc (p + off) (ch p) (Some sc)
      else attr g a' k')" for a' k'
    unfolding g1_def by (rule attr_set_desc [OF cur])
  have bs: "bump_self g a k off = Inr (g1, length (ch p))"
    unfolding g1_def by (rule bump_self_desc [OF cur])
  have run: "updateObserverIndexes d g a k off =
      update_loop d' g1 a k off [length ([] :: nat list)..<length ([] :: nat list) + length (ch p)]"
    by (simp add: d bs)
  have child: "if in_range T ch (walk T ch x)
         then \<exists>g'. updateObserverIndexes d' g0 qa qk off = (None, g') \<and>
                shifted T ch sc off (walk T ch x) g0 g'
         else fst (updateObserverIndexes d' g0 qa qk off) \<noteq> None"
    if "x \<in> set ?K" "cell_at g0 sc = Some cl" "T ! x = Some (qa, qk)" "distinct (walk T ch x)"
      "fresh g0 T ch sc (walk T ch x)" "ascending ch (walk T ch x)" for x g0 qa qk
  proof -
    from that(1) have x: "p < x" "x < length T" by auto
    with fuel d have "length T - x \<le> d'" by simp
    from "1.IH" [OF that(1,2) tab that(3) x(2) that(4,5,6) this] show ?thesis .
  qed
  have ord: "\<forall>x \<in> set (ch p). p < x"
    using asc V by (simp add: ascending_def)
  have dW: "distinct (p # W)" using dist V by simp
  have inj: "\<forall>v \<in> set (p # W). \<forall>w \<in> set (p # W). T ! v = T ! w \<longrightarrow> v = w"
    using fresh_inj [OF fr] V by auto
  have aW: "ascending ch W" using asc V by (simp add: ascending_def)
  have c1: "cell_at g1 sc = Some cl" using cell by (simp add: g1_def cell_at_set_attr)
  have cur1: "attr g1 a k = VDesc (p + off) (map (\<lambda>x. x + off) [] @ ch p) (Some sc)"
    by (simp add: a1)
  have not_p: "(qa, qk) \<noteq> (a, k)" if "v \<in> set W" "T ! v = Some (qa, qk)" for v qa qk
  proof
    assume "(qa, qk) = (a, k)"
    with that ent have "T ! v = T ! p" by simp
    with inj that(1) have "v = p" by simp
    with that(1) dW show False by simp
  qed
  have frW: "fresh g T ch sc W" using fr V by (simp add: fresh_def)
  have fr1: "fresh g1 T ch sc W"
    using frW
  proof (rule fresh_cong)
    fix v qa qk assume "v \<in> set W" "T ! v = Some (qa, qk)"
    then have "(qa, qk) \<noteq> (a, k)" by (rule not_p)
    then show "attr g1 qa qk = attr g qa qk" by (auto simp: a1)
  qed
  have sp: "ch p = [] @ ch p" by simp
  note loop = update_loop_shifts [where pre = "[]" and xs = "ch p" and W = W and gt = g1
      and d = d' and off = off and T = T and ch = ch and p = p and sc = sc and cl = cl
      and a = a and k = k, OF child tab ent ord sp W_def dW inj aW c1 cur1 fr1]
  have rng: "in_range T ch (walk T ch p) \<longleftrightarrow> (\<forall>x \<in> set (ch p). x < length T) \<and> in_range T ch W"
    using V by (auto simp: in_range_def)
  show ?case
  proof (cases "in_range T ch (walk T ch p)")
    case False
    with rng have nc: "\<not> ((\<forall>x \<in> set (ch p). x < length T) \<and> in_range T ch W)" by simp
    from loop have "fst (update_loop d' g1 a k off
        [length ([] :: nat list)..<length ([] :: nat list) + length (ch p)]) \<noteq> None"
      unfolding if_not_P [OF nc] .
    then show ?thesis unfolding if_not_P [OF False] run .
  next
    case True
    with rng have C: "(\<forall>x \<in> set (ch p). x < length T) \<and> in_range T ch W" by simp
    from loop obtain g' where g': "update_loop d' g1 a k off
        [length ([] :: nat list)..<length ([] :: nat list) + length (ch p)] = (None, g')"
      "attr g' a k = VDesc (p + off) (map (\<lambda>x. x + off) (ch p)) (Some sc)"
      "\<forall>v \<in> set W. \<forall>qa qk. T ! v = Some (qa, qk) \<longrightarrow> attr g' qa qk = shift_desc off ch sc v"
      "\<forall>a' k'. (a', k') \<noteq> (a, k) \<and> (\<forall>v \<in> set W. T ! v \<noteq> Some (a', k')) \<longrightarrow>
         attr g' a' k' = attr g1 a' k'"
      "cells g' = cells g1"
      unfolding if_P [OF C] by blast
    have s1: "attr g' qa qk = shift_desc off ch sc v"
      if "v \<in> set (walk T ch p)" "T ! v = Some (qa, qk)" for v qa qk
    proof (cases "v = p")
      case True
      with that ent g'(2) show ?thesis by (simp add: shift_desc_def)
    next
      case False
      with that V g'(3) show ?thesis by simp
    qed
    have s2: "attr g' a' k' = attr g a' k'"
      if "\<forall>v \<in> set (walk T ch p). T ! v \<noteq> Some (a', k')" for a' k'
    proof -
      from that V ent have ne: "(a', k') \<noteq> (a, k)" by auto
      moreover from that V have "\<forall>v \<in> set W. T ! v \<noteq> Some (a', k')" by simp
      ultimately have "attr g' a' k' = attr g1 a' k'" using g'(4) by blast
      with ne show ?thesis by (auto simp: a1)
    qed
    have s3: "cells g' = cells g" using g'(5) by (simp add: g1_def cells_set_attr)
    have "shifted T ch sc off (walk T ch p) g g'"
      unfolding shifted_def using s1 s2 s3 by blast
    with g'(1) show ?thesis unfolding if_P [OF True] run by blast
  qed
qed

subsection \<open>\<open>bindTo\<close>: the indices after a failed call\<close>

text \<open>
  C2 fails. The call that failed on \<open>ex_bound\<close> left index 1 in the
  \<^verbatim>\<open>__observerIndexes\<close> of the third object's \<open>name\<close>, where no observer was added. The
  next \<open>bindTo\<close> on that target appends the fourth object at position 1 and pushes 1
  again. When the third object's \<open>name\<close> is then bound to the fifth, with a table of
  length 1, \<open>_updateObserverIndexes\<close> visits the fourth object once for each of the two
  indices and adds the offset twice: the call returns normally, the merged table has the
  fourth object's \<open>name\<close> at position 2, and its \<^verbatim>\<open>__myIndex\<close> is 3.
\<close>

theorem bindTo_stale_index_shifts_twice:
  "bindTo 10 ex_plain 1 ''name'' 0 None False = (None, ex_bound, [Call 1 ''nameChanged'' []]) \<and>
   bindTo 10 ex_bound 1 ''name'' 2 None False = (Some (AlreadySourced ''name''), ex_failed, []) \<and>
   bindTo 10 ex_failed 3 ''name'' 2 None False = (None, ex_stale, [Call 3 ''nameChanged'' []]) \<and>
   bindTo 10 ex_stale 2 ''name'' 4 None False = (None, ex_skewed, [Call 3 ''nameChanged'' []]) \<and>
   cell_at ex_skewed 2 =
     Some \<lparr>cvalue = VStr ''r'',
            observers = [Some (4, ''name''), Some (2, ''name''), Some (3, ''name'')]\<rparr> \<and>
   attr ex_stale 3 ''name'' = VDesc 1 [] (Some 1) \<and>
   attr ex_skewed 3 ''name'' = VDesc 3 [] (Some 2)"
  by code_simp

end
